theory Spec2Isabelle
  imports Main "HOL-Library.AList"
begin

section \<open>The graph container of \<^verbatim>\<open>graph.py\<close>\<close>

text \<open>
  The class \<^verbatim>\<open>Graph\<close> holds a dictionary \<^verbatim>\<open>adjacency_list\<close> from a vertex to the list of
  its neighbours, and the flag \<^verbatim>\<open>directed\<close>. Python dictionaries keep their keys in
  insertion order, and \<^verbatim>\<open>get_vertices\<close>, \<^verbatim>\<open>get_edges\<close> and \<^verbatim>\<open>remove_vertex\<close> iterate in
  that order, so the dictionary is an association list: a new key goes to the end, a
  stored list is replaced in place. The container and the traversals \<^verbatim>\<open>bfs\<close>, \<^verbatim>\<open>dfs\<close> and
  \<^verbatim>\<open>dfs_recursive\<close> only compare vertices with each other, so they are modelled for the
  values of any type \<open>'v\<close>; their optional target is a \<open>'v option\<close>, with \<^const>\<open>None\<close>
  for the default \<^verbatim>\<open>target=None\<close>.

  \<^verbatim>\<open>bfs_path\<close> compares vertices with \<^verbatim>\<open>None\<close> as well: it stores \<^verbatim>\<open>None\<close> as the parent of
  the start vertex and follows the parents until it reads \<^verbatim>\<open>None\<close>. Nothing keeps
  \<^verbatim>\<open>None\<close> from being a vertex (\<^verbatim>\<open>add_edge(None, 'A')\<close> is accepted), so there the vertices
  are Python values: \<^verbatim>\<open>None\<close>, or any other value.

  Two exceptions can come out of the class: a subscript \<^verbatim>\<open>d[k]\<close> on a missing key raises
  \<^verbatim>\<open>KeyError\<close>, and the recursion of \<^verbatim>\<open>dfs_recursive\<close> raises \<^verbatim>\<open>RecursionError\<close> when it
  is deeper than the interpreter allows.
\<close>

datatype py_error = KeyError | RecursionError

datatype 'a py_value = PyNone | Val 'a

record 'v graph =
  adjacency_list :: "('v \<times> 'v list) list"
  directed :: bool

definition Graph_init :: "bool \<Rightarrow> 'v graph" where
  "Graph_init d = \<lparr>adjacency_list = [], directed = d\<rparr>"

definition has_vertex :: "'v graph \<Rightarrow> 'v \<Rightarrow> bool" where
  "has_vertex g vertex = (vertex \<in> set (map fst (adjacency_list g)))"

definition add_vertex :: "'v graph \<Rightarrow> 'v \<Rightarrow> 'v graph" where
  "add_vertex g vertex =
     (if \<not> has_vertex g vertex
      then g\<lparr>adjacency_list := adjacency_list g @ [(vertex, [])]\<rparr>
      else g)"

text \<open>
  \<^verbatim>\<open>add_edge\<close> reads \<^verbatim>\<open>self.adjacency_list[vertex1]\<close> and \<^verbatim>\<open>self.adjacency_list[vertex2]\<close>
  without a guard; the second read is behind the short-circuit \<^verbatim>\<open>not self.directed and\<close>.
\<close>

definition add_edge :: "'v graph \<Rightarrow> 'v \<Rightarrow> 'v \<Rightarrow> py_error + 'v graph" where
  "add_edge g vertex1 vertex2 =
     (let g1 = add_vertex g vertex1;
          g2 = add_vertex g1 vertex2
      in case map_of (adjacency_list g2) vertex1 of
           None \<Rightarrow> Inl KeyError
         | Some ns1 \<Rightarrow>
             (let g3 = (if vertex2 \<notin> set ns1
                        then g2\<lparr>adjacency_list :=
                               AList.update vertex1 (ns1 @ [vertex2]) (adjacency_list g2)\<rparr>
                        else g2)
              in if directed g3 then Inr g3
                 else (case map_of (adjacency_list g3) vertex2 of
                         None \<Rightarrow> Inl KeyError
                       | Some ns2 \<Rightarrow>
                           if vertex1 \<notin> set ns2
                           then Inr (g3\<lparr>adjacency_list :=
                                  AList.update vertex2 (ns2 @ [vertex1]) (adjacency_list g3)\<rparr>)
                           else Inr g3)))"

text \<open>
  \<^verbatim>\<open>list.remove(x)\<close> deletes the first occurrence of \<open>x\<close>, which is \<^const>\<open>remove1\<close>. Both
  subscripts of \<^verbatim>\<open>remove_edge\<close> are guarded by a membership test on the key.
\<close>

definition remove_edge :: "'v graph \<Rightarrow> 'v \<Rightarrow> 'v \<Rightarrow> 'v graph" where
  "remove_edge g vertex1 vertex2 =
     (let g1 = (case map_of (adjacency_list g) vertex1 of
                  None \<Rightarrow> g
                | Some ns1 \<Rightarrow>
                    if vertex2 \<in> set ns1
                    then g\<lparr>adjacency_list :=
                           AList.update vertex1 (remove1 vertex2 ns1) (adjacency_list g)\<rparr>
                    else g)
      in if directed g1 then g1
         else (case map_of (adjacency_list g1) vertex2 of
                 None \<Rightarrow> g1
               | Some ns2 \<Rightarrow>
                   if vertex1 \<in> set ns2
                   then g1\<lparr>adjacency_list :=
                           AList.update vertex2 (remove1 vertex1 ns2) (adjacency_list g1)\<rparr>
                   else g1))"

text \<open>
  The loop of \<^verbatim>\<open>remove_vertex\<close> runs over the keys and edits the list stored under each
  key, so it is a map over the entries; \<^verbatim>\<open>del\<close> then drops the entry of the vertex.
\<close>

definition remove_vertex :: "'v graph \<Rightarrow> 'v \<Rightarrow> 'v graph" where
  "remove_vertex g vertex =
     (if has_vertex g vertex
      then g\<lparr>adjacency_list :=
             AList.delete vertex
               (map (\<lambda>(v, ns). (v, if vertex \<in> set ns then remove1 vertex ns else ns))
                    (adjacency_list g))\<rparr>
      else g)"

definition get_neighbors :: "'v graph \<Rightarrow> 'v \<Rightarrow> 'v list" where
  "get_neighbors g vertex =
     (case map_of (adjacency_list g) vertex of None \<Rightarrow> [] | Some ns \<Rightarrow> ns)"

definition has_edge :: "'v graph \<Rightarrow> 'v \<Rightarrow> 'v \<Rightarrow> bool" where
  "has_edge g vertex1 vertex2 =
     (case map_of (adjacency_list g) vertex1 of
        None \<Rightarrow> False
      | Some ns \<Rightarrow> vertex2 \<in> set ns)"

definition get_vertices :: "'v graph \<Rightarrow> 'v list" where
  "get_vertices g = map fst (adjacency_list g)"

fun get_edges_for :: "bool \<Rightarrow> 'v \<Rightarrow> 'v list \<Rightarrow> ('v \<times> 'v) list \<Rightarrow> ('v \<times> 'v) list" where
  "get_edges_for d vertex [] edges = edges"
| "get_edges_for d vertex (neighbor # ns) edges =
     (if \<not> d
      then (if (neighbor, vertex) \<notin> set edges
            then get_edges_for d vertex ns (edges @ [(vertex, neighbor)])
            else get_edges_for d vertex ns edges)
      else get_edges_for d vertex ns (edges @ [(vertex, neighbor)]))"

fun get_edges_loop :: "bool \<Rightarrow> ('v \<times> 'v list) list \<Rightarrow> ('v \<times> 'v) list \<Rightarrow> ('v \<times> 'v) list" where
  "get_edges_loop d [] edges = edges"
| "get_edges_loop d ((vertex, ns) # rest) edges =
     get_edges_loop d rest (get_edges_for d vertex ns edges)"

definition get_edges :: "'v graph \<Rightarrow> ('v \<times> 'v) list" where
  "get_edges g = get_edges_loop (directed g) (adjacency_list g) []"

section \<open>Traversals\<close>

text \<open>
  The \<^verbatim>\<open>while queue\<close> loop of \<^verbatim>\<open>bfs\<close>, with the deque as a list whose head is the
  left end. The inner \<^verbatim>\<open>for\<close> loop appends the neighbours that are not visited; the
  visited set does not change while it runs, so it is a filter.
\<close>

function bfs_loop :: "'v graph \<Rightarrow> 'v option \<Rightarrow> 'v list \<Rightarrow> 'v set \<Rightarrow> 'v list \<Rightarrow> py_error + 'v list" where
  "bfs_loop g target [] visited result = Inr result"
| "bfs_loop g target (vertex # queue) visited result =
     (if vertex \<notin> visited
      then (if target = Some vertex then Inr (result @ [vertex])
            else (case map_of (adjacency_list g) vertex of
                    None \<Rightarrow> Inl KeyError
                  | Some ns \<Rightarrow>
                      bfs_loop g target
                        (queue @ filter (\<lambda>neighbor. neighbor \<notin> insert vertex visited) ns)
                        (insert vertex visited) (result @ [vertex])))
      else bfs_loop g target queue visited result)"
  by pat_completeness auto

text \<open>
  Each iteration either visits a new key of the dictionary or shortens the queue.
\<close>

lemma card_unvisited_less:
  assumes "map_of al vertex = Some ns" and "vertex \<notin> visited"
  shows "card (fst ` set al - insert vertex visited) < card (fst ` set al - visited)"
proof -
  from assms(1) have "vertex \<in> fst ` set al"
    by (metis map_of_eq_None_iff option.distinct(1))
  with assms(2) have "fst ` set al - insert vertex visited \<subset> fst ` set al - visited"
    by auto
  then show ?thesis
    by (intro psubset_card_mono) auto
qed

termination bfs_loop
  by (relation "inv_image (less_than <*lex*> less_than)
        (\<lambda>(g, target, queue, visited, result).
           (card (set (map fst (adjacency_list g)) - visited), length queue))")
     (auto simp: card_unvisited_less)

definition bfs :: "'v graph \<Rightarrow> 'v \<Rightarrow> 'v option \<Rightarrow> py_error + 'v list" where
  "bfs g start_vertex target =
     (if \<not> has_vertex g start_vertex then Inr []
      else bfs_loop g target [start_vertex] {} [])"

text \<open>
  The stack of \<^verbatim>\<open>dfs\<close> is a Python list: \<^verbatim>\<open>pop()\<close> takes the last element and
  \<^verbatim>\<open>append\<close> adds at the end. The neighbours are pushed in reversed order.
\<close>

function dfs_loop :: "'v graph \<Rightarrow> 'v option \<Rightarrow> 'v list \<Rightarrow> 'v set \<Rightarrow> 'v list \<Rightarrow> py_error + 'v list" where
  "dfs_loop g target stack visited result =
     (if stack = [] then Inr result
      else if last stack \<notin> visited
      then (if target = Some (last stack) then Inr (result @ [last stack])
            else (case map_of (adjacency_list g) (last stack) of
                    None \<Rightarrow> Inl KeyError
                  | Some ns \<Rightarrow>
                      dfs_loop g target
                        (butlast stack @
                           filter (\<lambda>neighbor. neighbor \<notin> insert (last stack) visited) (rev ns))
                        (insert (last stack) visited) (result @ [last stack])))
      else dfs_loop g target (butlast stack) visited result)"
  by pat_completeness auto

termination dfs_loop
  by (relation "inv_image (less_than <*lex*> less_than)
        (\<lambda>(g, target, stack, visited, result).
           (card (set (map fst (adjacency_list g)) - visited), length stack))")
     (auto simp: card_unvisited_less)

definition dfs :: "'v graph \<Rightarrow> 'v \<Rightarrow> 'v option \<Rightarrow> py_error + 'v list" where
  "dfs g start_vertex target =
     (if \<not> has_vertex g start_vertex then Inr []
      else dfs_loop g target [start_vertex] {} [])"

text \<open>
  \<^verbatim>\<open>dfs_helper\<close> is a closure over \<^verbatim>\<open>visited\<close> and \<^verbatim>\<open>result\<close>; the model passes both
  in and out. \<^verbatim>\<open>dfs_helper_for\<close> is its \<^verbatim>\<open>for\<close> loop over the neighbours, which calls
  \<^verbatim>\<open>dfs_helper\<close> again on the state the previous call left.

  Every call of \<^verbatim>\<open>dfs_helper\<close> takes a frame of the interpreter's stack, and the
  interpreter raises \<^verbatim>\<open>RecursionError\<close> on a call for which no frame is left. How many
  frames are left when \<^verbatim>\<open>dfs_recursive\<close> calls \<^verbatim>\<open>dfs_helper\<close> is not in the source (it is
  \<^verbatim>\<open>sys.getrecursionlimit()\<close>, 1000 unless changed, less the depth of the caller), so it
  is the parameter \<open>frames\<close>. The exception is not caught: the lists built so far are
  lost.
\<close>

function dfs_helper :: "'v graph \<Rightarrow> 'v option \<Rightarrow> nat \<Rightarrow> 'v \<Rightarrow> 'v set \<times> 'v list \<Rightarrow> py_error + (bool \<times> 'v set \<times> 'v list)"
  and dfs_helper_for :: "'v graph \<Rightarrow> 'v option \<Rightarrow> nat \<Rightarrow> 'v list \<Rightarrow> 'v set \<times> 'v list \<Rightarrow> py_error + (bool \<times> 'v set \<times> 'v list)"
  where
  "dfs_helper g target frames vertex (visited, result) =
     (if frames = 0 then Inl RecursionError
      else if vertex \<in> visited then Inr (False, visited, result)
      else if target = Some vertex then Inr (True, insert vertex visited, result @ [vertex])
      else (case map_of (adjacency_list g) vertex of
              None \<Rightarrow> Inl KeyError
            | Some ns \<Rightarrow>
                dfs_helper_for g target (frames - 1) ns
                  (insert vertex visited, result @ [vertex])))"
| "dfs_helper_for g target frames [] (visited, result) = Inr (False, visited, result)"
| "dfs_helper_for g target frames (neighbor # ns) (visited, result) =
     (if neighbor \<notin> visited
      then (case dfs_helper g target frames neighbor (visited, result) of
              Inl e \<Rightarrow> Inl e
            | Inr (found, st) \<Rightarrow>
                if found then Inr (True, st) else dfs_helper_for g target frames ns st)
      else dfs_helper_for g target frames ns (visited, result))"
  by pat_completeness auto

termination dfs_helper
  by (relation "inv_image (less_than <*lex*> less_than)
        (\<lambda>x. case x of
           Inl (g, target, frames, vertex, st) \<Rightarrow> (frames, 0)
         | Inr (g, target, frames, ns, st) \<Rightarrow> (frames, Suc (length ns)))")
     auto

definition dfs_recursive :: "nat \<Rightarrow> 'v graph \<Rightarrow> 'v \<Rightarrow> 'v option \<Rightarrow> py_error + 'v list" where
  "dfs_recursive frames g start_vertex target =
     (if \<not> has_vertex g start_vertex then Inr []
      else (case dfs_helper g target frames start_vertex ({}, []) of
              Inl e \<Rightarrow> Inl e
            | Inr (found, visited, result) \<Rightarrow> Inr result))"

text \<open>
  \<^verbatim>\<open>bfs_path\<close> rebuilds the path by following \<^verbatim>\<open>parent\<close> until it reads \<^verbatim>\<open>None\<close>.
  \<^verbatim>\<open>parent\<close> is a dictionary from a vertex to the vertex that discovered it, or to
  \<^verbatim>\<open>None\<close> for the start vertex; its keys and its values are Python values. The loop
  \<^verbatim>\<open>while current is not None\<close> has no bound of its own, so the model is a partial
  function: \<^const>\<open>None\<close> is a walk that never ends, \<open>Some (Inl KeyError)\<close> a vertex
  without an entry in \<^verbatim>\<open>parent\<close>. A result of \<^verbatim>\<open>bfs_path\<close> is therefore an optional
  outcome: \<open>Some (Inr None)\<close> is the returned \<^verbatim>\<open>None\<close>, \<open>Some (Inr (Some p))\<close> the returned
  list \<open>p\<close>.
\<close>

partial_function (option) build_path ::
  "('v py_value \<rightharpoonup> 'v py_value) \<Rightarrow> 'v py_value \<Rightarrow> 'v py_value list \<Rightarrow>
   (py_error + 'v py_value list) option" where
  "build_path parent current path =
     (if current \<noteq> PyNone
      then (case parent current of
              None \<Rightarrow> Some (Inl KeyError)
            | Some p \<Rightarrow> build_path parent p (path @ [current]))
      else Some (Inr path))"

declare build_path.simps [code]

datatype ('r, 's) for_result = Returned 'r | Completed 's

type_synonym 'v path_result = "(py_error + 'v py_value list option) option"

text \<open>
  The \<^verbatim>\<open>for\<close> loop of \<^verbatim>\<open>bfs_path\<close> either returns from the function (on the target)
  or completes and hands the visited set, the parent map and the queue back to the
  \<^verbatim>\<open>while\<close> loop.
\<close>

type_synonym 'v path_state =
  "'v py_value set \<times> ('v py_value \<rightharpoonup> 'v py_value) \<times> 'v py_value list"

fun bfs_path_for ::
  "'v py_value \<Rightarrow> 'v py_value \<Rightarrow> 'v py_value list \<Rightarrow> 'v path_state \<Rightarrow>
   ('v path_result, 'v path_state) for_result" where
  "bfs_path_for target vertex [] st = Completed st"
| "bfs_path_for target vertex (neighbor # ns) (visited, parent, queue) =
     (if neighbor \<notin> visited
      then (if neighbor = target
            then Returned
                   (case build_path (parent(neighbor \<mapsto> vertex)) neighbor [] of
                      None \<Rightarrow> None
                    | Some (Inl e) \<Rightarrow> Some (Inl e)
                    | Some (Inr path) \<Rightarrow> Some (Inr (Some (rev path))))
            else bfs_path_for target vertex ns
                   (insert neighbor visited, parent(neighbor \<mapsto> vertex), queue @ [neighbor]))
      else bfs_path_for target vertex ns (visited, parent, queue))"

function bfs_path_loop ::
  "'v py_value graph \<Rightarrow> 'v py_value \<Rightarrow> 'v py_value list \<Rightarrow> 'v py_value set \<Rightarrow>
   ('v py_value \<rightharpoonup> 'v py_value) \<Rightarrow> 'v path_result" where
  "bfs_path_loop g target [] visited parent = Some (Inr None)"
| "bfs_path_loop g target (vertex # queue) visited parent =
     (case map_of (adjacency_list g) vertex of
        None \<Rightarrow> Some (Inl KeyError)
      | Some ns \<Rightarrow>
          (case bfs_path_for target vertex ns (visited, parent, queue) of
             Returned r \<Rightarrow> r
           | Completed (visited', parent', queue') \<Rightarrow>
               bfs_path_loop g target queue' visited' parent'))"
  by pat_completeness auto

definition neighbor_set :: "'v graph \<Rightarrow> 'v set" where
  "neighbor_set g = (\<Union>(v, ns) \<in> set (adjacency_list g). set ns)"

lemma finite_neighbor_set: "finite (neighbor_set g)"
  by (auto simp: neighbor_set_def)

lemma bfs_path_for_measure:
  assumes "bfs_path_for target vertex ns (visited, parent, queue) = Completed (visited', parent', queue')"
    and "set ns \<subseteq> U" and "finite U"
  shows "2 * card (U - visited') + length queue' \<le> 2 * card (U - visited) + length queue"
  using assms
proof (induction ns arbitrary: visited parent queue)
  case Nil
  then show ?case by simp
next
  case (Cons n ns)
  show ?case
  proof (cases "n \<in> visited")
    case True
    with Cons show ?thesis by simp
  next
    case False
    with Cons.prems have ne: "n \<noteq> target"
      and r: "bfs_path_for target vertex ns
           (insert n visited, parent(n \<mapsto> vertex), queue @ [n]) = Completed (visited', parent', queue')"
      by (auto split: if_splits)
    from Cons.IH[OF r] Cons.prems
    have le: "2 * card (U - visited') + length queue'
           \<le> 2 * card (U - insert n visited) + length (queue @ [n])"
      by simp
    from False Cons.prems have "n \<in> U - visited" by simp
    with \<open>finite U\<close> have "card (U - insert n visited) < card (U - visited)"
      by (intro psubset_card_mono) auto
    with le show ?thesis by simp
  qed
qed

termination bfs_path_loop
proof (relation "measure (\<lambda>(g, target, queue, visited, parent).
          2 * card (neighbor_set g - visited) + length queue)", goal_cases)
  case 1
  show ?case by simp
next
  case (2 g target vertex queue visited parent ns st visited' rest parent' queue')
  from 2(1) have "(vertex, ns) \<in> set (adjacency_list g)"
    by (rule map_of_SomeD)
  then have sub: "set ns \<subseteq> neighbor_set g"
    by (auto simp: neighbor_set_def)
  from 2 have "bfs_path_for target vertex ns (visited, parent, queue)
       = Completed (visited', parent', queue')"
    by simp
  from bfs_path_for_measure[OF this sub finite_neighbor_set]
  show ?case by simp
qed

definition bfs_path :: "'v py_value graph \<Rightarrow> 'v py_value \<Rightarrow> 'v py_value \<Rightarrow> 'v path_result" where
  "bfs_path g start_vertex target =
     (if \<not> has_vertex g start_vertex \<or> \<not> has_vertex g target then Some (Inr None)
      else if start_vertex = target then Some (Inr (Some [start_vertex]))
      else bfs_path_loop g target [start_vertex] {start_vertex} [start_vertex \<mapsto> PyNone])"

text \<open>
  \<^const>\<open>dfs_loop\<close> has a single equation that matches every call, and the equation of
  \<^const>\<open>dfs_helper\<close> matches every call on a pair; both are unfolded by hand.
\<close>

declare dfs_loop.simps [simp del]
declare dfs_helper.simps [simp del]

section \<open>The scenario of the specification\<close>

text \<open>
  The undirected graph with the edges A-B, A-C, B-D, B-E, C-F, E-F, built by six calls
  of \<^verbatim>\<open>add_edge\<close> in this order; \<^const>\<open>Inl\<close> would be a call that raised.
\<close>

definition then_add_edge :: "py_error + 'v graph \<Rightarrow> 'v \<Rightarrow> 'v \<Rightarrow> py_error + 'v graph" where
  "then_add_edge r vertex1 vertex2 =
     (case r of Inl e \<Rightarrow> Inl e | Inr g \<Rightarrow> add_edge g vertex1 vertex2)"

definition scenario1 :: "py_error + string py_value graph" where
  "scenario1 =
     then_add_edge (then_add_edge (then_add_edge (then_add_edge (then_add_edge
       (add_edge (Graph_init False) (Val ''A'') (Val ''B'')) (Val ''A'') (Val ''C'')) (Val ''B'') (Val ''D'')) (Val ''B'') (Val ''E''))
       (Val ''C'') (Val ''F'')) (Val ''E'') (Val ''F'')"

definition scenario1_graph :: "string py_value graph" where
  "scenario1_graph =
     \<lparr>adjacency_list =
        [(Val ''A'', [Val ''B'', Val ''C'']), (Val ''B'', [Val ''A'', Val ''D'', Val ''E'']), (Val ''C'', [Val ''A'', Val ''F'']),
         (Val ''D'', [Val ''B'']), (Val ''E'', [Val ''B'', Val ''F'']), (Val ''F'', [Val ''C'', Val ''E''])],
      directed = False\<rparr>"

section \<open>Graphs the class can build, and the invariants of the data model\<close>

text \<open>
  A graph is created empty and changed only by the four mutating methods.
\<close>

inductive api_reachable :: "'v graph \<Rightarrow> bool" where
  init: "api_reachable (Graph_init d)"
| add_vertex: "api_reachable g \<Longrightarrow> api_reachable (add_vertex g v)"
| add_edge: "api_reachable g \<Longrightarrow> add_edge g u v = Inr g' \<Longrightarrow> api_reachable g'"
| remove_edge: "api_reachable g \<Longrightarrow> api_reachable (remove_edge g u v)"
| remove_vertex: "api_reachable g \<Longrightarrow> api_reachable (remove_vertex g v)"

definition no_duplicates :: "'v graph \<Rightarrow> bool" where
  "no_duplicates g = (\<forall>v. distinct (get_neighbors g v))"

definition no_dangling :: "'v graph \<Rightarrow> bool" where
  "no_dangling g = (\<forall>u v. has_edge g u v \<longrightarrow> has_vertex g v)"

definition symmetric :: "'v graph \<Rightarrow> bool" where
  "symmetric g = (\<forall>u v. has_edge g u v = has_edge g v u)"

section \<open>What each mutation does to the vertices and the neighbour lists\<close>

lemma has_vertex_map_of: "has_vertex g v \<longleftrightarrow> map_of (adjacency_list g) v \<noteq> None"
  by (simp add: has_vertex_def map_of_eq_None_iff)

lemma has_edge_neighbors: "has_edge g u v \<longleftrightarrow> v \<in> set (get_neighbors g u)"
  by (simp add: has_edge_def get_neighbors_def split: option.splits)

lemma map_of_add_vertex:
  "map_of (adjacency_list (add_vertex g v)) =
     (if has_vertex g v then map_of (adjacency_list g) else (map_of (adjacency_list g))(v \<mapsto> []))"
  by (auto simp: add_vertex_def has_vertex_map_of map_add_def fun_eq_iff split: option.splits)

lemma add_vertex_effect:
  "get_neighbors (add_vertex g v) w = get_neighbors g w"
  "has_vertex (add_vertex g v) w \<longleftrightarrow> w = v \<or> has_vertex g w"
  "directed (add_vertex g v) = directed g"
  by (auto simp: get_neighbors_def has_vertex_map_of map_of_add_vertex)
     (auto simp: add_vertex_def split: if_splits)

lemma add_edge_effect:
  "\<exists>g'. add_edge g u v = Inr g' \<and> directed g' = directed g \<and>
     (\<forall>w. has_vertex g' w \<longleftrightarrow> w = u \<or> w = v \<or> has_vertex g w) \<and>
     (\<forall>w. get_neighbors g' w =
        (if w = u \<and> v \<notin> set (get_neighbors g u) then get_neighbors g u @ [v]
         else if \<not> directed g \<and> w = v \<and> u \<notin> set (get_neighbors g v) then get_neighbors g v @ [u]
         else get_neighbors g w))"
  apply (simp add: add_edge_def Let_def get_neighbors_def has_vertex_map_of map_of_add_vertex update_conv'
     split: option.splits)
  apply (auto simp: add_vertex_def has_vertex_map_of)
  done

lemma remove_edge_effect:
  "directed (remove_edge g u v) = directed g"
  "has_vertex (remove_edge g u v) w = has_vertex g w"
  "get_neighbors (remove_edge g u v) w =
     (if directed g then (if w = u then remove1 v (get_neighbors g u) else get_neighbors g w)
      else if w = v then remove1 u (if v = u then remove1 v (get_neighbors g u) else get_neighbors g v)
      else if w = u then remove1 v (get_neighbors g u)
      else get_neighbors g w)"
  by (auto simp: remove_edge_def Let_def get_neighbors_def has_vertex_map_of update_conv'
        remove1_idem split: option.splits)

lemma remove_vertex_absent: "\<not> has_vertex g v \<Longrightarrow> remove_vertex g v = g"
  by (simp add: remove_vertex_def)

lemma remove_vertex_effect:
  "directed (remove_vertex g v) = directed g"
  "has_vertex (remove_vertex g v) w \<longleftrightarrow> has_vertex g w \<and> w \<noteq> v"
  "has_vertex g v \<Longrightarrow> get_neighbors (remove_vertex g v) w =
     (if w = v then [] else remove1 v (get_neighbors g w))"
  by (auto simp: remove_vertex_def get_neighbors_def has_vertex_map_of delete_conv' map_of_map
        remove1_idem split: option.splits)

lemma Graph_init_effect:
  "get_neighbors (Graph_init d) w = []" "\<not> has_vertex (Graph_init d) w"
  "directed (Graph_init d) = d"
  by (simp_all add: Graph_init_def get_neighbors_def has_vertex_def)

lemma add_edge_neighbors:
  assumes "add_edge g u v = Inr g'"
  shows "get_neighbors g' w =
        (if w = u \<and> v \<notin> set (get_neighbors g u) then get_neighbors g u @ [v]
         else if \<not> directed g \<and> w = v \<and> u \<notin> set (get_neighbors g v) then get_neighbors g v @ [u]
         else get_neighbors g w)"
    and "has_vertex g' w \<longleftrightarrow> w = u \<or> w = v \<or> has_vertex g w"
    and "directed g' = directed g"
  using add_edge_effect[of g u v] assms by auto

lemma api_reachable_no_duplicates: "api_reachable g \<Longrightarrow> no_duplicates g"
proof (induction rule: api_reachable.induct)
  case (init d)
  then show ?case by (simp add: no_duplicates_def Graph_init_effect)
next
  case (add_vertex g v)
  then show ?case by (simp add: no_duplicates_def add_vertex_effect)
next
  case (add_edge g u v g')
  then show ?case by (simp add: no_duplicates_def add_edge_neighbors)
next
  case (remove_edge g u v)
  then show ?case by (simp add: no_duplicates_def remove_edge_effect)
next
  case (remove_vertex g v)
  then show ?case
    by (cases "has_vertex g v") (simp_all add: no_duplicates_def remove_vertex_effect remove_vertex_absent)
qed

lemma in_set_remove1D: "a \<in> set (remove1 b xs) \<Longrightarrow> a \<in> set xs"
  using set_remove1_subset[of b xs] by auto

lemma api_reachable_no_dangling: "api_reachable g \<Longrightarrow> no_dangling g"
proof (induction rule: api_reachable.induct)
  case (init d)
  then show ?case by (simp add: no_dangling_def has_edge_neighbors Graph_init_effect)
next
  case (add_vertex g v)
  then show ?case by (simp add: no_dangling_def has_edge_neighbors add_vertex_effect)
next
  case (add_edge g u v g')
  then show ?case
    by (auto simp: no_dangling_def has_edge_neighbors add_edge_neighbors split: if_splits)
next
  case (remove_edge g u v)
  then show ?case
    by (auto simp: no_dangling_def has_edge_neighbors remove_edge_effect split: if_splits
          dest!: in_set_remove1D)
next
  case (remove_vertex g v)
  from remove_vertex.hyps have "no_duplicates g" by (rule api_reachable_no_duplicates)
  with remove_vertex.IH show ?case
    by (cases "has_vertex g v")
       (auto simp: no_dangling_def no_duplicates_def has_edge_neighbors remove_vertex_effect
          remove_vertex_absent split: if_splits)
qed

lemma api_reachable_symmetric: "api_reachable g \<Longrightarrow> \<not> directed g \<Longrightarrow> symmetric g"
proof (induction rule: api_reachable.induct)
  case (init d)
  then show ?case by (simp add: symmetric_def has_edge_neighbors Graph_init_effect)
next
  case (add_vertex g v)
  then show ?case by (simp add: symmetric_def has_edge_neighbors add_vertex_effect)
next
  case (add_edge g u v g')
  then show ?case
    by (auto simp: symmetric_def has_edge_neighbors add_edge_neighbors split: if_splits)
next
  case (remove_edge g u v)
  from remove_edge.hyps have "no_duplicates g" by (rule api_reachable_no_duplicates)
  with remove_edge show ?case
    by (auto simp: symmetric_def no_duplicates_def has_edge_neighbors remove_edge_effect)
next
  case (remove_vertex g v)
  from remove_vertex.hyps have "no_duplicates g" by (rule api_reachable_no_duplicates)
  with remove_vertex show ?case
    by (cases "has_vertex g v")
       (auto simp: symmetric_def no_duplicates_def has_edge_neighbors remove_vertex_effect
          remove_vertex_absent)
qed

lemma scenario1_value: "scenario1 = Inr scenario1_graph"
  by (simp add: scenario1_def scenario1_graph_def then_add_edge_def add_edge_def add_vertex_def
        has_vertex_def Graph_init_def)

lemma add_edge_reachable:
  assumes "api_reachable g"
  shows "\<exists>g'. add_edge g u v = Inr g' \<and> api_reachable g'"
proof -
  from add_edge_effect[of g u v] obtain g' where "add_edge g u v = Inr g'" by blast
  with assms show ?thesis
    by (auto intro: api_reachable.add_edge)
qed

lemma then_add_edge_reachable:
  assumes "\<exists>g. r = Inr g \<and> api_reachable g"
  shows "\<exists>g. then_add_edge r u v = Inr g \<and> api_reachable g"
proof -
  from assms obtain g where g: "r = Inr g" "api_reachable g" by blast
  from add_edge_reachable[OF g(2)] g(1) show ?thesis
    by (simp add: then_add_edge_def)
qed

lemma scenario1_reachable: "api_reachable scenario1_graph"
proof -
  have "\<exists>g. scenario1 = Inr g \<and> api_reachable g"
    unfolding scenario1_def
    by (intro then_add_edge_reachable add_edge_reachable api_reachable.init)
  then show ?thesis by (simp add: scenario1_value)
qed

lemma scenario1_neighbors:
  "get_neighbors scenario1_graph v =
     (if v = (Val ''A'') then [Val ''B'', Val ''C''] else if v = (Val ''B'') then [Val ''A'', Val ''D'', Val ''E'']
      else if v = (Val ''C'') then [Val ''A'', Val ''F''] else if v = (Val ''D'') then [Val ''B'']
      else if v = (Val ''E'') then [Val ''B'', Val ''F''] else if v = (Val ''F'') then [Val ''C'', Val ''E''] else [])"
  by (simp add: get_neighbors_def scenario1_graph_def)

lemma scenario1_vertices:
  "has_vertex scenario1_graph v \<longleftrightarrow> v \<in> {Val ''A'', Val ''B'', Val ''C'', Val ''D'', Val ''E'', Val ''F''}"
  by (auto simp: has_vertex_def scenario1_graph_def)

section \<open>Symmetry of undirected graphs\<close>

text \<open>
  Claim C4. In every undirected graph built from the empty graph by \<^verbatim>\<open>add_vertex\<close>,
  \<^verbatim>\<open>add_edge\<close>, \<^verbatim>\<open>remove_edge\<close> and \<^verbatim>\<open>remove_vertex\<close>, \<open>v\<close> is in the neighbour
  list of \<open>u\<close> exactly when \<open>u\<close> is in the neighbour list of \<open>v\<close>; that is,
  \<^verbatim>\<open>has_edge(u, v) == has_edge(v, u)\<close>.
\<close>

theorem undirected_symmetry:
  "api_reachable g \<Longrightarrow> \<not> directed g \<Longrightarrow>
     (v \<in> set (get_neighbors g u) \<longleftrightarrow> u \<in> set (get_neighbors g v)) \<and>
     has_edge g u v = has_edge g v u"
  using api_reachable_symmetric[of g] by (simp add: symmetric_def has_edge_neighbors)

theorem undirected_symmetry_witness:
  "api_reachable scenario1_graph \<and> \<not> directed scenario1_graph \<and>
   (Val ''E'') \<in> set (get_neighbors scenario1_graph (Val ''B'')) \<and>
   (Val ''B'') \<in> set (get_neighbors scenario1_graph (Val ''E'')) \<and>
   has_edge scenario1_graph (Val ''B'') (Val ''E'') = has_edge scenario1_graph (Val ''E'') (Val ''B'')"
proof -
  have d: "\<not> directed scenario1_graph" by (simp add: scenario1_graph_def)
  from undirected_symmetry[OF scenario1_reachable d, of "Val ''E''" "Val ''B''"] scenario1_reachable d
  show ?thesis by (simp add: scenario1_neighbors)
qed

section \<open>No duplicate neighbours\<close>

lemma add_edge_twice:
  assumes "add_edge g u v = Inr g1"
  shows "add_edge g1 u v = Inr g1"
proof -
  have hv: "has_vertex g1 u" "has_vertex g1 v"
    by (simp_all add: add_edge_neighbors(2)[OF assms])
  then obtain nu nv where m: "map_of (adjacency_list g1) u = Some nu"
      "map_of (adjacency_list g1) v = Some nv"
    by (auto simp: has_vertex_map_of)
  then have n: "get_neighbors g1 u = nu" "get_neighbors g1 v = nv"
    by (simp_all add: get_neighbors_def)
  have "v \<in> set (get_neighbors g1 u)"
    by (simp add: add_edge_neighbors(1)[OF assms])
  moreover have "\<not> directed g1 \<Longrightarrow> u \<in> set (get_neighbors g1 v)"
    by (simp add: add_edge_neighbors[OF assms])
  ultimately show ?thesis
    using hv m n by (auto simp: add_edge_def add_vertex_def Let_def)
qed

lemma count_list_distinct: "distinct xs \<Longrightarrow> count_list xs x = (if x \<in> set xs then 1 else 0)"
  by (induction xs) auto

text \<open>
  Claim C5. In every graph built from the empty graph by the mutation API no neighbour
  list holds an entry twice. A second \<^verbatim>\<open>add_edge(u, v)\<close> returns the graph the first
  call produced, so it leaves every neighbour list as it was; and after
  \<^verbatim>\<open>add_edge(u, u)\<close> the vertex \<open>u\<close> occurs exactly once in its own neighbour list
  (in a directed graph as well as in an undirected one, where the symmetric insertion
  finds the loop already there).
\<close>

theorem no_duplicate_neighbors:
  "api_reachable g \<Longrightarrow>
     distinct (get_neighbors g w) \<and>
     (\<exists>g1. add_edge g u v = Inr g1 \<and> add_edge g1 u v = Inr g1) \<and>
     (\<exists>g1. add_edge g u u = Inr g1 \<and> count_list (get_neighbors g1 u) u = 1)"
proof (intro conjI)
  assume r: "api_reachable g"
  then show "distinct (get_neighbors g w)"
    using api_reachable_no_duplicates[of g] by (simp add: no_duplicates_def)
  from add_edge_effect[of g u v] obtain g1 where g1: "add_edge g u v = Inr g1" by blast
  then show "\<exists>g1. add_edge g u v = Inr g1 \<and> add_edge g1 u v = Inr g1"
    by (simp add: add_edge_twice)
  from add_edge_effect[of g u u] obtain g2 where g2: "add_edge g u u = Inr g2" by blast
  with r have "api_reachable g2" by (rule api_reachable.add_edge)
  then have "distinct (get_neighbors g2 u)"
    using api_reachable_no_duplicates[of g2] by (simp add: no_duplicates_def)
  moreover have "u \<in> set (get_neighbors g2 u)"
    by (simp add: add_edge_neighbors(1)[OF g2])
  ultimately show "\<exists>g1. add_edge g u u = Inr g1 \<and> count_list (get_neighbors g1 u) u = 1"
    using g2 by (simp add: count_list_distinct)
qed

theorem no_duplicate_neighbors_witness:
  "api_reachable scenario1_graph \<and>
   distinct (get_neighbors scenario1_graph (Val ''B'')) \<and>
   (\<exists>g1. add_edge scenario1_graph (Val ''A'') (Val ''D'') = Inr g1 \<and> add_edge g1 (Val ''A'') (Val ''D'') = Inr g1) \<and>
   (\<exists>g1. add_edge scenario1_graph (Val ''A'') (Val ''A'') = Inr g1 \<and>
         count_list (get_neighbors g1 (Val ''A'')) (Val ''A'') = 1)"
  using no_duplicate_neighbors[OF scenario1_reachable, of "Val ''B''" "Val ''A''" "Val ''D''"]
    no_duplicate_neighbors[OF scenario1_reachable, of "Val ''B''" "Val ''A''" "Val ''A''"]
    scenario1_reachable
  by blast

section \<open>Cascade deletion\<close>

text \<open>
  Claim C6. On a graph that satisfies the invariants of the data model (no neighbour
  list holds an entry twice, every neighbour is a vertex; every graph built through the
  mutation API does, see \<open>api_reachable_no_duplicates\<close> and
  \<open>api_reachable_no_dangling\<close>), after \<^verbatim>\<open>remove_vertex(v)\<close> the vertex \<open>v\<close> is absent
  and no neighbour list contains it; and when \<open>v\<close> was absent the graph is unchanged.
\<close>

theorem remove_vertex_cascade:
  "no_duplicates g \<Longrightarrow> no_dangling g \<Longrightarrow>
     \<not> has_vertex (remove_vertex g v) v \<and>
     (\<forall>w. v \<notin> set (get_neighbors (remove_vertex g v) w)) \<and>
     (\<not> has_vertex g v \<longrightarrow> remove_vertex g v = g)"
  by (cases "has_vertex g v")
     (auto simp: no_duplicates_def no_dangling_def has_edge_neighbors remove_vertex_effect
        remove_vertex_absent)

theorem remove_vertex_cascade_witness:
  "no_duplicates scenario1_graph \<and> no_dangling scenario1_graph \<and>
   has_vertex scenario1_graph (Val ''B'') \<and>
   \<not> has_vertex (remove_vertex scenario1_graph (Val ''B'')) (Val ''B'') \<and>
   (\<forall>w. (Val ''B'') \<notin> set (get_neighbors (remove_vertex scenario1_graph (Val ''B'')) w)) \<and>
   \<not> has_vertex scenario1_graph (Val ''Z'') \<and>
   remove_vertex scenario1_graph (Val ''Z'') = scenario1_graph"
proof -
  have a: "no_duplicates scenario1_graph"
    using scenario1_reachable by (rule api_reachable_no_duplicates)
  have b: "no_dangling scenario1_graph"
    using scenario1_reachable by (rule api_reachable_no_dangling)
  from remove_vertex_cascade[OF a b, of "Val ''B''"] remove_vertex_cascade[OF a b, of "Val ''Z''"] a b
  show ?thesis by (simp add: scenario1_vertices)
qed

section \<open>Absent vertices\<close>

text \<open>
  Claim C8. With the start vertex absent, \<^verbatim>\<open>bfs\<close>, \<^verbatim>\<open>dfs\<close> and \<^verbatim>\<open>dfs_recursive\<close>
  return the empty list and raise nothing; with the start or the target absent,
  \<^verbatim>\<open>bfs_path\<close> returns \<^verbatim>\<open>None\<close>; and \<^verbatim>\<open>bfs_path(s, s)\<close> on a present vertex returns
  the path \<open>[s]\<close>.
\<close>

theorem absent_vertices:
  "(\<not> has_vertex g s \<longrightarrow>
      bfs g s tgt = Inr [] \<and> dfs g s tgt = Inr [] \<and> dfs_recursive frames g s tgt = Inr []) \<and>
   (\<not> has_vertex h a \<or> \<not> has_vertex h b \<longrightarrow> bfs_path h a b = Some (Inr None)) \<and>
   (has_vertex h a \<longrightarrow> bfs_path h a a = Some (Inr (Some [a])))"
  by (simp add: bfs_def dfs_def dfs_recursive_def bfs_path_def)

theorem absent_vertices_witness:
  "\<not> has_vertex scenario1_graph (Val ''Z'') \<and>
   bfs scenario1_graph (Val ''Z'') (Some (Val ''A'')) = Inr [] \<and>
   dfs scenario1_graph (Val ''Z'') (Some (Val ''A'')) = Inr [] \<and>
   dfs_recursive 1000 scenario1_graph (Val ''Z'') (Some (Val ''A'')) = Inr [] \<and>
   bfs_path scenario1_graph (Val ''Z'') (Val ''A'') = Some (Inr None) \<and>
   has_vertex scenario1_graph (Val ''A'') \<and>
   bfs_path scenario1_graph (Val ''A'') (Val ''A'') = Some (Inr (Some [Val ''A'']))"
  using absent_vertices[of scenario1_graph "Val ''Z''" "Some (Val ''A'')" 1000
      scenario1_graph "Val ''Z''" "Val ''A''"]
    absent_vertices[of scenario1_graph "Val ''Z''" "Some (Val ''A'')" 1000
      scenario1_graph "Val ''A''" "Val ''A''"]
  by (simp add: scenario1_vertices)

section \<open>Scenario 1\<close>

text \<open>
  Claim C9. The six calls \<^verbatim>\<open>add_edge('A','B')\<close>, \<^verbatim>\<open>add_edge('A','C')\<close>,
  \<^verbatim>\<open>add_edge('B','D')\<close>, \<^verbatim>\<open>add_edge('B','E')\<close>, \<^verbatim>\<open>add_edge('C','F')\<close>,
  \<^verbatim>\<open>add_edge('E','F')\<close> on an empty undirected graph succeed, and on the graph they
  build \<^verbatim>\<open>bfs('A')\<close> returns A, B, C, D, E, F and \<^verbatim>\<open>bfs_path('A','F')\<close> returns
  A, C, F.
\<close>

theorem scenario1_traversals:
  "\<exists>g. scenario1 = Inr g \<and>
       bfs g (Val ''A'') None = Inr [Val ''A'', Val ''B'', Val ''C'', Val ''D'', Val ''E'', Val ''F''] \<and>
       bfs_path g (Val ''A'') (Val ''F'') = Some (Inr (Some [Val ''A'', Val ''C'', Val ''F'']))"
proof -
  have "bfs scenario1_graph (Val ''A'') None = Inr [Val ''A'', Val ''B'', Val ''C'', Val ''D'', Val ''E'', Val ''F'']"
    by (simp add: bfs_def scenario1_graph_def has_vertex_def)
  moreover have "bfs_path scenario1_graph (Val ''A'') (Val ''F'') = Some (Inr (Some [Val ''A'', Val ''C'', Val ''F'']))"
    by (simp add: bfs_path_def scenario1_graph_def has_vertex_def build_path.simps)
  ultimately show ?thesis by (simp add: scenario1_value)
qed

theorem scenario1_traversals_witness:
  "bfs scenario1_graph (Val ''A'') None = Inr [Val ''A'', Val ''B'', Val ''C'', Val ''D'', Val ''E'', Val ''F''] \<and>
   bfs_path scenario1_graph (Val ''A'') (Val ''F'') = Some (Inr (Some [Val ''A'', Val ''C'', Val ''F'']))"
  using scenario1_traversals by (simp add: scenario1_value)

section \<open>Completeness of the breadth-first traversal\<close>

text \<open>
  The vertices reachable from \<open>s\<close> along the edges that \<^verbatim>\<open>has_edge\<close> reports.
\<close>

definition reachable_from :: "'v graph \<Rightarrow> 'v \<Rightarrow> 'v set" where
  "reachable_from g s = {v. (s, v) \<in> {(a, b). has_edge g a b}\<^sup>*}"

lemma reachable_from_refl: "s \<in> reachable_from g s"
  by (simp add: reachable_from_def)

lemma reachable_from_step:
  "u \<in> reachable_from g s \<Longrightarrow> has_edge g u v \<Longrightarrow> v \<in> reachable_from g s"
  by (auto simp: reachable_from_def intro: rtrancl_into_rtrancl)

lemma reachable_from_closed:
  assumes "s \<in> V" and "\<And>x y. x \<in> V \<Longrightarrow> has_edge g x y \<Longrightarrow> y \<in> V"
  shows "reachable_from g s \<subseteq> V"
proof
  fix v assume "v \<in> reachable_from g s"
  then have "(s, v) \<in> {(a, b). has_edge g a b}\<^sup>*" by (simp add: reachable_from_def)
  then show "v \<in> V"
    by (induction rule: rtrancl_induct) (use assms in auto)
qed

lemma bfs_loop_complete:
  assumes "no_dangling g" and "target = None"
    and "\<forall>q \<in> set queue. has_vertex g q"
    and "set result = visited" and "distinct result"
    and "visited \<union> set queue \<subseteq> reachable_from g s"
    and "s \<in> visited \<union> set queue"
    and "\<forall>x \<in> visited. \<forall>y. has_edge g x y \<longrightarrow> y \<in> visited \<union> set queue"
  shows "\<exists>r. bfs_loop g target queue visited result = Inr r \<and> set r = reachable_from g s \<and> distinct r"
  using assms
proof (induction g target queue visited result rule: bfs_loop.induct)
  case (1 g target visited result)
  have "reachable_from g s \<subseteq> visited"
    using 1 by (intro reachable_from_closed) auto
  with 1 show ?case by auto
next
  case (2 g target vertex queue visited result)
  show ?case
  proof (cases "vertex \<in> visited")
    case True
    with "2.prems" have "\<exists>r. bfs_loop g target queue visited result = Inr r \<and>
        set r = reachable_from g s \<and> distinct r"
      by (intro "2.IH"(2)) auto
    with True show ?thesis by simp
  next
    case False
    from "2.prems" obtain ns where ns: "map_of (adjacency_list g) vertex = Some ns"
      by (auto simp: has_vertex_map_of)
    then have nb: "\<And>n. n \<in> set ns \<longleftrightarrow> has_edge g vertex n"
      by (simp add: has_edge_def)
    have vr: "vertex \<in> reachable_from g s" using "2.prems" by auto
    have "\<exists>r. bfs_loop g target (queue @ filter (\<lambda>neighbor. neighbor \<notin> insert vertex visited) ns)
            (insert vertex visited) (result @ [vertex]) = Inr r \<and>
         set r = reachable_from g s \<and> distinct r"
    proof (intro "2.IH"(1)[OF False _ ns])
      show "target \<noteq> Some vertex" using "2.prems"(2) by simp
      show "no_dangling g" by fact
      show "target = None" by fact
      show "\<forall>q\<in>set (queue @ filter (\<lambda>neighbor. neighbor \<notin> insert vertex visited) ns). has_vertex g q"
        using "2.prems"(1,3) by (auto simp: nb no_dangling_def)
      show "set (result @ [vertex]) = insert vertex visited"
        using "2.prems"(4) by auto
      show "distinct (result @ [vertex])"
        using "2.prems"(4,5) False by auto
      show "insert vertex visited \<union> set (queue @ filter (\<lambda>neighbor. neighbor \<notin> insert vertex visited) ns)
          \<subseteq> reachable_from g s"
        using "2.prems"(6) vr by (auto simp: nb intro: reachable_from_step)
      show "s \<in> insert vertex visited \<union>
          set (queue @ filter (\<lambda>neighbor. neighbor \<notin> insert vertex visited) ns)"
        using "2.prems"(7) by auto
      show "\<forall>x\<in>insert vertex visited. \<forall>y. has_edge g x y \<longrightarrow>
          y \<in> insert vertex visited \<union>
            set (queue @ filter (\<lambda>neighbor. neighbor \<notin> insert vertex visited) ns)"
        using "2.prems"(8) by (auto simp: nb)
    qed
    with False ns "2.prems"(2) show ?thesis by simp
  qed
qed

text \<open>
  Claim C3. On a graph whose neighbours are all vertices (the first invariant of the
  data model; every graph built through the mutation API has it, see
  \<open>api_reachable_no_dangling\<close>) and for a start vertex of the graph, \<^verbatim>\<open>bfs(start)\<close>
  without a target returns a list, raises nothing, and the list holds exactly the
  vertices reachable from the start, each of them once.
\<close>

theorem bfs_completeness:
  "no_dangling g \<Longrightarrow> has_vertex g s \<Longrightarrow>
     \<exists>r. bfs g s None = Inr r \<and> set r = reachable_from g s \<and> distinct r"
  unfolding bfs_def
  using bfs_loop_complete[of g None "[s]" "[]" "{}" s]
  by (simp add: reachable_from_refl)

lemma scenario1_bfs:
  "bfs scenario1_graph (Val ''A'') None = Inr [Val ''A'', Val ''B'', Val ''C'', Val ''D'', Val ''E'', Val ''F'']"
  by (simp add: bfs_def scenario1_graph_def has_vertex_def)

theorem bfs_completeness_witness:
  "no_dangling scenario1_graph \<and> has_vertex scenario1_graph (Val ''A'') \<and>
   bfs scenario1_graph (Val ''A'') None = Inr [Val ''A'', Val ''B'', Val ''C'', Val ''D'', Val ''E'', Val ''F''] \<and>
   reachable_from scenario1_graph (Val ''A'') = {Val ''A'', Val ''B'', Val ''C'', Val ''D'', Val ''E'', Val ''F''}"
proof -
  have a: "no_dangling scenario1_graph"
    using scenario1_reachable by (rule api_reachable_no_dangling)
  have b: "has_vertex scenario1_graph (Val ''A'')"
    by (simp add: scenario1_vertices)
  from bfs_completeness[OF a b] a b show ?thesis
    by (auto simp: scenario1_bfs)
qed

section \<open>The two depth-first traversals agree\<close>

text \<open>
  The stack of \<^verbatim>\<open>dfs\<close> may hold vertices that were visited after they were pushed; the
  loop drops them when they are popped. So two stacks with the same unvisited entries
  in the same order give the same run.
\<close>

lemma dfs_loop_Nil: "dfs_loop g target [] visited result = Inr result"
  by (simp add: dfs_loop.simps)

lemma dfs_loop_snoc:
  "dfs_loop g target (stack @ [v]) visited result =
     (if v \<notin> visited
      then (if target = Some v then Inr (result @ [v])
            else (case map_of (adjacency_list g) v of
                    None \<Rightarrow> Inl KeyError
                  | Some ns \<Rightarrow>
                      dfs_loop g target
                        (stack @ filter (\<lambda>neighbor. neighbor \<notin> insert v visited) (rev ns))
                        (insert v visited) (result @ [v])))
      else dfs_loop g target stack visited result)"
  by (subst dfs_loop.simps) (simp cong: option.case_cong)

lemma dfs_loop_drop_visited:
  "set s' \<subseteq> visited \<Longrightarrow>
     dfs_loop g target (s @ s') visited result = dfs_loop g target s visited result"
proof (induction s' rule: rev_induct)
  case Nil
  then show ?case by simp
next
  case (snoc x xs)
  have "dfs_loop g target (s @ xs @ [x]) visited result
        = dfs_loop g target ((s @ xs) @ [x]) visited result" by simp
  also have "\<dots> = dfs_loop g target (s @ xs) visited result"
    using snoc.prems by (subst dfs_loop_snoc) simp
  finally show ?case using snoc by simp
qed

lemma filter_eq_snocD:
  "filter P s = xs @ [v] \<Longrightarrow>
     \<exists>c d. s = c @ v # d \<and> filter P c = xs \<and> (\<forall>x \<in> set d. \<not> P x) \<and> P v"
proof (induction s rule: rev_induct)
  case Nil
  then show ?case by simp
next
  case (snoc y ys)
  show ?case
  proof (cases "P y")
    case True
    with snoc.prems have "filter P ys = xs" "y = v" by auto
    with True show ?thesis by (intro exI[of _ ys] exI[of _ "[]"]) simp
  next
    case False
    with snoc.prems have "filter P ys = xs @ [v]" by simp
    from snoc.IH[OF this] obtain c d where
      "ys = c @ v # d" "filter P c = xs" "\<forall>x \<in> set d. \<not> P x" "P v" by blast
    with False show ?thesis
      by (intro exI[of _ c] exI[of _ "d @ [y]"]) simp
  qed
qed

lemma dfs_loop_filter_cong:
  "filter (\<lambda>x. x \<notin> visited) s1 = filter (\<lambda>x. x \<notin> visited) s2 \<Longrightarrow>
     dfs_loop g target s1 visited result = dfs_loop g target s2 visited result"
proof (induction g target s1 visited result arbitrary: s2 rule: dfs_loop.induct)
  case (1 g target stack visited result)
  show ?case
  proof (cases stack rule: rev_cases)
    case Nil
    with "1.prems" have "set s2 \<subseteq> visited"
      by (auto simp: filter_empty_conv dest: sym)
    from dfs_loop_drop_visited[OF this, of g target "[]" result] Nil show ?thesis
      by simp
  next
    case (snoc b v)
    show ?thesis
    proof (cases "v \<in> visited")
      case True
      with snoc "1.prems" have fb: "filter (\<lambda>x. x \<notin> visited) (butlast stack) = filter (\<lambda>x. x \<notin> visited) s2"
        by simp
      have "dfs_loop g target (butlast stack) visited result = dfs_loop g target s2 visited result"
        by (rule "1.IH"(2)) (use snoc True fb in simp_all)
      then have "dfs_loop g target b visited result = dfs_loop g target s2 visited result"
        using snoc by simp
      with True snoc show ?thesis by (simp add: dfs_loop_snoc)
    next
      case False
      with snoc "1.prems" have "filter (\<lambda>x. x \<notin> visited) s2 = filter (\<lambda>x. x \<notin> visited) b @ [v]"
        by simp
      from filter_eq_snocD[OF this] obtain c d where
        s2: "s2 = c @ v # d" and fc: "filter (\<lambda>x. x \<notin> visited) c = filter (\<lambda>x. x \<notin> visited) b"
        and d: "set d \<subseteq> visited" by auto
      have e2: "dfs_loop g target s2 visited result = dfs_loop g target (c @ [v]) visited result"
        using dfs_loop_drop_visited[OF d, of g target "c @ [v]" result] s2 by simp
      show ?thesis
      proof (cases "target = Some v")
        case True
        with False snoc e2 show ?thesis by (simp add: dfs_loop_snoc)
      next
        case nt: False
        show ?thesis
        proof (cases "map_of (adjacency_list g) v")
          case None
          with False nt snoc e2 show ?thesis by (simp add: dfs_loop_snoc)
        next
          case (Some ns)
          let ?F = "filter (\<lambda>neighbor. neighbor \<notin> insert v visited) (rev ns)"
          have "filter (\<lambda>x. x \<notin> insert v visited) b
                = filter (\<lambda>x. x \<noteq> v) (filter (\<lambda>x. x \<notin> visited) b)"
            by (simp add: conj_commute)
          also have "\<dots> = filter (\<lambda>x. x \<noteq> v) (filter (\<lambda>x. x \<notin> visited) c)"
            by (simp only: fc)
          also have "\<dots> = filter (\<lambda>x. x \<notin> insert v visited) c"
            by (simp add: conj_commute)
          finally have eqF: "filter (\<lambda>x. x \<notin> insert v visited) (b @ ?F)
                = filter (\<lambda>x. x \<notin> insert v visited) (c @ ?F)"
            by simp
          have "dfs_loop g target
                  (butlast stack @
                     filter (\<lambda>neighbor. neighbor \<notin> insert (last stack) visited) (rev ns))
                  (insert (last stack) visited) (result @ [last stack])
              = dfs_loop g target (c @ ?F) (insert (last stack) visited) (result @ [last stack])"
            by (rule "1.IH"(1)) (use snoc False nt Some eqF in simp_all)
          then have "dfs_loop g target (b @ ?F) (insert v visited) (result @ [v])
              = dfs_loop g target (c @ ?F) (insert v visited) (result @ [v])"
            using snoc by simp
          with False nt Some snoc e2 show ?thesis by (simp add: dfs_loop_snoc)
        qed
      qed
    qed
  qed
qed

text \<open>
  How the iterative loop goes on once the recursive search of a vertex (or of a list of
  neighbours) is over: it stops where the recursion found the target or raised, and
  otherwise works off the rest of the stack from the state the recursion left.
\<close>

definition dfs_resume ::
  "'v graph \<Rightarrow> 'v option \<Rightarrow> py_error + (bool \<times> 'v set \<times> 'v list) \<Rightarrow> 'v list \<Rightarrow> py_error + 'v list" where
  "dfs_resume g target r stack =
     (case r of
        Inl e \<Rightarrow> Inl e
      | Inr (found, visited, result) \<Rightarrow>
          if found then Inr result else dfs_loop g target stack visited result)"

lemma dfs_loop_helper:
  "dfs_helper g target frames vertex st \<noteq> Inl RecursionError \<Longrightarrow>
     dfs_loop g target (stack @ [vertex]) (fst st) (snd st)
       = dfs_resume g target (dfs_helper g target frames vertex st) stack"
  "dfs_helper_for g target frames ns st \<noteq> Inl RecursionError \<Longrightarrow>
     dfs_loop g target (stack @ rev ns) (fst st) (snd st)
       = dfs_resume g target (dfs_helper_for g target frames ns st) stack"
proof (induction g target frames vertex st and g target frames ns st arbitrary: stack and stack
       rule: dfs_helper_dfs_helper_for.induct)
  case (1 g target frames vertex visited result)
  from "1.prems" have fr: "frames \<noteq> 0"
    by (auto simp: dfs_helper.simps split: if_splits)
  show ?case
  proof (cases "vertex \<in> visited \<or> target = Some vertex \<or> map_of (adjacency_list g) vertex = None")
    case True
    with fr show ?thesis
      by (auto simp: dfs_loop_snoc dfs_helper.simps dfs_resume_def)
  next
    case False
    then obtain ns where ns: "map_of (adjacency_list g) vertex = Some ns" by auto
    from False ns fr have h: "dfs_helper g target frames vertex (visited, result)
        = dfs_helper_for g target (frames - 1) ns (insert vertex visited, result @ [vertex])"
      by (simp add: dfs_helper.simps)
    with "1.prems" have ne: "dfs_helper_for g target (frames - 1) ns
        (insert vertex visited, result @ [vertex]) \<noteq> Inl RecursionError" by simp
    have "dfs_loop g target (stack @ filter (\<lambda>n. n \<notin> insert vertex visited) (rev ns))
            (insert vertex visited) (result @ [vertex])
          = dfs_loop g target (stack @ rev ns) (insert vertex visited) (result @ [vertex])"
      by (rule dfs_loop_filter_cong) simp
    also have "\<dots> = dfs_resume g target
        (dfs_helper_for g target (frames - 1) ns (insert vertex visited, result @ [vertex])) stack"
      using "1.IH"[OF fr _ _ ns ne, of stack] False by simp
    finally show ?thesis
      using False ns h by (simp add: dfs_loop_snoc)
  qed
next
  case (2 g target frames visited result)
  show ?case by (simp add: dfs_resume_def)
next
  case (3 g target frames neighbor ns visited result)
  show ?case
  proof (cases "neighbor \<in> visited")
    case True
    with "3.prems" have "dfs_helper_for g target frames ns (visited, result) \<noteq> Inl RecursionError"
      by simp
    from "3.IH"(3)[OF _ this, of stack] True show ?thesis
      by (simp add: dfs_loop_snoc[of g target "stack @ rev ns", simplified])
  next
    case False
    have ne1: "dfs_helper g target frames neighbor (visited, result) \<noteq> Inl RecursionError"
      using "3.prems" False by (auto split: sum.splits)
    have a: "dfs_loop g target (stack @ rev ns @ [neighbor]) visited result
          = dfs_resume g target (dfs_helper g target frames neighbor (visited, result)) (stack @ rev ns)"
      using "3.IH"(1)[OF False ne1, of "stack @ rev ns"] by simp
    show ?thesis
    proof (cases "dfs_helper g target frames neighbor (visited, result)")
      case (Inl e)
      with a False show ?thesis by (simp add: dfs_resume_def)
    next
      case (Inr r)
      obtain found st' where r: "r = (found, st')" by (cases r)
      show ?thesis
      proof (cases found)
        case True
        with a False Inr r show ?thesis
          by (cases st') (simp add: dfs_resume_def)
      next
        case nf: False
        with "3.prems" False Inr r
        have ne2: "dfs_helper_for g target frames ns st' \<noteq> Inl RecursionError" by simp
        from "3.IH"(2)[OF False Inr r[symmetric] nf ne2, of stack]
        have "dfs_loop g target (stack @ rev ns) (fst st') (snd st')
            = dfs_resume g target (dfs_helper_for g target frames ns st') stack" .
        with a False Inr r nf show ?thesis
          by (cases st') (simp add: dfs_resume_def)
      qed
    qed
  qed
qed

text \<open>
  A call only adds to the visited set, and every nested call is on a key of the
  dictionary that was not visited: with more frames than keys the recursion fits.
\<close>

lemma dfs_helper_visited:
  "dfs_helper g target frames vertex st = Inr (b, st') \<Longrightarrow> fst st \<subseteq> fst st'"
  "dfs_helper_for g target frames ns st = Inr (b, st') \<Longrightarrow> fst st \<subseteq> fst st'"
proof (induction g target frames vertex st and g target frames ns st arbitrary: b st' and b st'
       rule: dfs_helper_dfs_helper_for.induct)
  case (1 g target frames vertex visited result)
  show ?case
  proof (cases "frames = 0 \<or> vertex \<in> visited \<or> target = Some vertex
                \<or> map_of (adjacency_list g) vertex = None")
    case True
    with "1.prems" show ?thesis
      by (auto simp: dfs_helper.simps split: if_splits)
  next
    case False
    then obtain ns where ns: "map_of (adjacency_list g) vertex = Some ns" by auto
    with False "1.prems" have "dfs_helper_for g target (frames - 1) ns
        (insert vertex visited, result @ [vertex]) = Inr (b, st')"
      by (simp add: dfs_helper.simps)
    from "1.IH"[OF _ _ _ ns this] False show ?thesis by auto
  qed
next
  case (2 g target frames visited result)
  then show ?case by simp
next
  case (3 g target frames neighbor ns visited result)
  show ?case
  proof (cases "neighbor \<in> visited")
    case True
    with "3.prems" "3.IH"(3) show ?thesis by simp
  next
    case False
    with "3.prems" obtain found st1
      where h: "dfs_helper g target frames neighbor (visited, result) = Inr (found, st1)"
      by (auto split: sum.splits)
    from "3.IH"(1)[OF False h] have m1: "visited \<subseteq> fst st1" by simp
    show ?thesis
    proof (cases found)
      case True
      with False h "3.prems" have "st' = st1" by simp
      with m1 show ?thesis by simp
    next
      case nf: False
      with False h "3.prems" have "dfs_helper_for g target frames ns st1 = Inr (b, st')"
        by simp
      from "3.IH"(2)[OF False h _ nf this] m1 show ?thesis by auto
    qed
  qed
qed

lemma dfs_helper_frames:
  "card (fst ` set (adjacency_list g) - fst st) < frames \<Longrightarrow>
     dfs_helper g target frames vertex st \<noteq> Inl RecursionError"
  "card (fst ` set (adjacency_list g) - fst st) < frames \<Longrightarrow>
     dfs_helper_for g target frames ns st \<noteq> Inl RecursionError"
proof (induction g target frames vertex st and g target frames ns st
       rule: dfs_helper_dfs_helper_for.induct)
  case (1 g target frames vertex visited result)
  from "1.prems" have fr: "frames \<noteq> 0" by auto
  show ?case
  proof (cases "vertex \<in> visited \<or> target = Some vertex \<or> map_of (adjacency_list g) vertex = None")
    case True
    with fr show ?thesis by (auto simp: dfs_helper.simps)
  next
    case False
    then obtain ns where ns: "map_of (adjacency_list g) vertex = Some ns" by auto
    from False have nv: "vertex \<notin> visited" by simp
    from card_unvisited_less[OF ns nv] "1.prems"
    have "card (fst ` set (adjacency_list g) - fst (insert vertex visited, result @ [vertex]))
          < frames - 1" by simp
    from "1.IH"[OF fr nv _ ns this] False ns fr show ?thesis
      by (simp add: dfs_helper.simps)
  qed
next
  case (2 g target frames visited result)
  show ?case by simp
next
  case (3 g target frames neighbor ns visited result)
  show ?case
  proof (cases "neighbor \<in> visited")
    case True
    with "3.IH"(3) "3.prems" show ?thesis by simp
  next
    case False
    from "3.IH"(1)[OF False "3.prems"]
    have ne1: "dfs_helper g target frames neighbor (visited, result) \<noteq> Inl RecursionError" .
    show ?thesis
    proof (cases "dfs_helper g target frames neighbor (visited, result)")
      case (Inl e)
      with ne1 False show ?thesis by simp
    next
      case (Inr r)
      obtain found st1 where r: "r = (found, st1)" by (cases r)
      show ?thesis
      proof (cases found)
        case True
        with False Inr r show ?thesis by simp
      next
        case nf: False
        from dfs_helper_visited(1)[of g target frames neighbor "(visited, result)" found st1] Inr r
        have "visited \<subseteq> fst st1" by simp
        then have "card (fst ` set (adjacency_list g) - fst st1)
            \<le> card (fst ` set (adjacency_list g) - visited)"
          by (intro card_mono) auto
        with "3.prems" have "card (fst ` set (adjacency_list g) - fst st1) < frames" by simp
        from "3.IH"(2)[OF False Inr r[symmetric] nf this] False Inr r nf show ?thesis
          by simp
      qed
    qed
  qed
qed

lemma dfs_loop_no_recursion_error:
  "dfs_loop g target stack visited result \<noteq> Inl RecursionError"
  by (induction g target stack visited result rule: dfs_loop.induct)
     (subst dfs_loop.simps, simp split: option.splits)

text \<open>
  Claim C2, as the code has it. For every graph, every start vertex and every optional
  target on which \<^verbatim>\<open>dfs_recursive\<close> does not run out of frames, the iterative \<^verbatim>\<open>dfs\<close>
  and the recursive \<^verbatim>\<open>dfs_recursive\<close> have the same outcome: the same list of vertices
  in the same order, or the same \<^verbatim>\<open>KeyError\<close> on a neighbour that is not a vertex. It
  does not run out of frames when the graph has fewer vertices than there are frames.
\<close>

theorem dfs_equivalence:
  "(dfs_recursive frames g start_vertex target \<noteq> Inl RecursionError \<longrightarrow>
      dfs g start_vertex target = dfs_recursive frames g start_vertex target) \<and>
   (length (get_vertices g) < frames \<longrightarrow>
      dfs_recursive frames g start_vertex target \<noteq> Inl RecursionError)"
proof (cases "has_vertex g start_vertex")
  case False
  then show ?thesis by (simp add: dfs_def dfs_recursive_def)
next
  case True
  have a: "dfs g start_vertex target = dfs_recursive frames g start_vertex target"
    if ne: "dfs_recursive frames g start_vertex target \<noteq> Inl RecursionError"
  proof -
    from ne True have "dfs_helper g target frames start_vertex ({}, []) \<noteq> Inl RecursionError"
      by (auto simp: dfs_recursive_def)
    from dfs_loop_helper(1)[OF this, of "[]"]
    have "dfs_loop g target [start_vertex] {} []
        = dfs_resume g target (dfs_helper g target frames start_vertex ({}, [])) []"
      by simp
    with True show ?thesis
      by (simp add: dfs_def dfs_recursive_def dfs_resume_def dfs_loop_Nil split: sum.splits)
  qed
  have b: "dfs_recursive frames g start_vertex target \<noteq> Inl RecursionError"
    if lt: "length (get_vertices g) < frames"
  proof -
    have "card (fst ` set (adjacency_list g)) \<le> length (get_vertices g)"
      unfolding get_vertices_def using card_length[of "map fst (adjacency_list g)"] by simp
    with lt have "card (fst ` set (adjacency_list g) - fst ({}, [])) < frames"
      by simp
    from dfs_helper_frames(1)[OF this, of target start_vertex]
    show ?thesis by (auto simp: dfs_recursive_def split: sum.splits)
  qed
  from a b show ?thesis by blast
qed

lemma scenario1_dfs:
  "dfs scenario1_graph (Val ''A'') None
     = Inr [Val ''A'', Val ''B'', Val ''D'', Val ''E'', Val ''F'', Val ''C'']"
  by (simp add: dfs_def scenario1_graph_def has_vertex_def dfs_loop.simps)

theorem dfs_equivalence_witness:
  "length (get_vertices scenario1_graph) < 1000 \<and>
   dfs_recursive 1000 scenario1_graph (Val ''A'') None \<noteq> Inl RecursionError \<and>
   dfs scenario1_graph (Val ''A'') None
     = Inr [Val ''A'', Val ''B'', Val ''D'', Val ''E'', Val ''F'', Val ''C''] \<and>
   dfs_recursive 1000 scenario1_graph (Val ''A'') None
     = Inr [Val ''A'', Val ''B'', Val ''D'', Val ''E'', Val ''F'', Val ''C'']"
proof -
  have l: "length (get_vertices scenario1_graph) < 1000"
    by (simp add: get_vertices_def scenario1_graph_def)
  from dfs_equivalence[of 1000 scenario1_graph "Val ''A''" None] l
  have "dfs_recursive 1000 scenario1_graph (Val ''A'') None \<noteq> Inl RecursionError"
    and "dfs scenario1_graph (Val ''A'') None = dfs_recursive 1000 scenario1_graph (Val ''A'') None"
    by blast+
  with l show ?thesis by (simp add: scenario1_dfs)
qed

text \<open>
  A directed chain \<open>0 \<rightarrow> 1 \<rightarrow> \<dots> \<rightarrow> n\<close>: the graph that \<^verbatim>\<open>add_edge(0, 1)\<close>, \<^verbatim>\<open>add_edge(1, 2)\<close>,
  up to \<^verbatim>\<open>add_edge(n - 1, n)\<close> build on \<^verbatim>\<open>Graph(directed=True)\<close>. The recursive
  traversal from \<open>0\<close> nests one call of \<^verbatim>\<open>dfs_helper\<close> for each vertex.
\<close>

definition chain_graph :: "nat \<Rightarrow> nat graph" where
  "chain_graph n =
     \<lparr>adjacency_list = map (\<lambda>i. (i, if i < n then [Suc i] else [])) [0..<Suc n],
      directed = True\<rparr>"

lemma chain_map_of:
  "map_of (adjacency_list (chain_graph n)) i
     = (if i \<le> n then Some (if i < n then [Suc i] else []) else None)"
  by (auto simp: chain_graph_def map_of_map_restrict restrict_map_def simp del: upt_Suc)

lemma update_append_absent:
  "k \<notin> fst ` set xs \<Longrightarrow> AList.update k v (xs @ ys) = xs @ AList.update k v ys"
  by (induction xs) auto

lemma chain_graph_Suc: "add_edge (chain_graph n) n (Suc n) = Inr (chain_graph (Suc n))"
proof -
  let ?f = "\<lambda>m i. (i, if i < m then [Suc i] else [])"
  have hv: "has_vertex (chain_graph n) n" "\<not> has_vertex (chain_graph n) (Suc n)"
    by (simp_all add: has_vertex_map_of chain_map_of)
  have p: "map (?f n) [0..<n] = map (?f (Suc n)) [0..<n]" by simp
  have al: "adjacency_list (chain_graph n) = map (?f (Suc n)) [0..<n] @ [(n, [])]"
    using p by (simp add: chain_graph_def)
  have k: "n \<notin> fst ` set (map (?f (Suc n)) [0..<n])" by auto
  have "AList.update n [Suc n] (adjacency_list (chain_graph n) @ [(Suc n, [])])
      = map (?f (Suc n)) [0..<n] @ [(n, [Suc n]), (Suc n, [])]"
    unfolding al using update_append_absent[OF k] by simp
  also have "\<dots> = adjacency_list (chain_graph (Suc n))"
    by (simp add: chain_graph_def)
  finally have u: "AList.update n [Suc n] (adjacency_list (chain_graph n) @ [(Suc n, [])])
      = adjacency_list (chain_graph (Suc n))" .
  have m: "map_of (adjacency_list (chain_graph n) @ [(Suc n, [])]) n = Some []"
    by (simp add: chain_map_of map_add_def)
  show ?thesis
    using hv m u by (simp add: add_edge_def add_vertex_def Let_def chain_graph_def)
qed

lemma chain_graph_reachable: "api_reachable (chain_graph n)"
proof (induction n)
  case 0
  have "add_vertex (Graph_init True) 0 = chain_graph 0"
    by (simp add: add_vertex_def has_vertex_def Graph_init_def chain_graph_def)
  then show ?case
    using api_reachable.add_vertex[OF api_reachable.init, of True "0::nat"] by simp
next
  case (Suc n)
  then show ?case
    using chain_graph_Suc by (rule api_reachable.add_edge)
qed

lemma chain_recursion:
  "i + frames \<le> n \<Longrightarrow> \<forall>j \<ge> i. j \<notin> visited \<Longrightarrow>
     dfs_helper (chain_graph n) None frames i (visited, result) = Inl RecursionError"
proof (induction frames arbitrary: i visited result)
  case 0
  show ?case by (simp add: dfs_helper.simps)
next
  case (Suc frames)
  from Suc.prems have i: "i < n" "i \<notin> visited" "Suc i \<notin> insert i visited" by auto
  have "dfs_helper (chain_graph n) None frames (Suc i) (insert i visited, result @ [i])
      = Inl RecursionError"
    using Suc.prems by (intro Suc.IH) auto
  with i show ?case
    by (simp add: dfs_helper.simps[of _ _ "Suc frames"] chain_map_of)
qed

lemma chain_dfs_loop:
  "i \<le> n \<Longrightarrow> dfs_loop (chain_graph n) None [i] {..<i} [0..<i] = Inr [0..<Suc n]"
proof (induction "n - i" arbitrary: i)
  case 0
  then have "i = n" by simp
  then show ?case
    by (simp add: dfs_loop.simps[of _ _ "[n]"] dfs_loop.simps[of _ _ "[]"] chain_map_of)
next
  case (Suc d)
  then have i: "i < n" by simp
  have "dfs_loop (chain_graph n) None [Suc i] {..<Suc i} [0..<Suc i] = Inr [0..<Suc n]"
    using Suc by (intro Suc.hyps(1)) auto
  moreover have "insert i {..<i} = {..<Suc i}" by auto
  ultimately show ?case
    using i by (simp add: dfs_loop.simps[of _ _ "[i]"] chain_map_of)
qed

text \<open>
  Without the condition the claim fails: on the chain of 1501 vertices, with the 1000
  frames of the default recursion limit, \<^verbatim>\<open>dfs(0)\<close> returns the vertices in order and
  \<^verbatim>\<open>dfs_recursive(0)\<close> raises \<^verbatim>\<open>RecursionError\<close>.
\<close>

theorem dfs_equivalence_counterexample:
  "api_reachable (chain_graph 1500) \<and>
   dfs (chain_graph 1500) 0 None = Inr [0..<1501] \<and>
   dfs_recursive 1000 (chain_graph 1500) 0 None = Inl RecursionError"
proof -
  have hv: "has_vertex (chain_graph 1500) 0"
    by (simp add: has_vertex_map_of chain_map_of)
  have "dfs_loop (chain_graph 1500) None [0] {..<0} [0..<0] = Inr [0..<Suc 1500]"
    by (rule chain_dfs_loop) simp
  then have a: "dfs (chain_graph 1500) 0 None = Inr [0..<1501]"
    using hv by (simp add: dfs_def lessThan_def)
  have "dfs_helper (chain_graph 1500) None 1000 0 ({}, []) = Inl RecursionError"
    by (rule chain_recursion) simp_all
  with hv have "dfs_recursive 1000 (chain_graph 1500) 0 None = Inl RecursionError"
    by (simp add: dfs_recursive_def)
  with a chain_graph_reachable show ?thesis by simp
qed

section \<open>The edge list of an undirected graph\<close>

text \<open>
  The two nested loops of \<^verbatim>\<open>get_edges\<close> visit the stored pairs (vertex, neighbour) in
  the order of the dictionary and of each list, and apply one step to each pair.
\<close>

definition edge_step :: "bool \<Rightarrow> 'v \<times> 'v \<Rightarrow> ('v \<times> 'v) list \<Rightarrow> ('v \<times> 'v) list" where
  "edge_step d p edges =
     (if \<not> d then (if (snd p, fst p) \<notin> set edges then edges @ [p] else edges)
      else edges @ [p])"

definition entries :: "('v \<times> 'v list) list \<Rightarrow> ('v \<times> 'v) list" where
  "entries al = concat (map (\<lambda>(vertex, ns). map (Pair vertex) ns) al)"

lemma get_edges_for_fold:
  "get_edges_for d vertex ns edges = fold (edge_step d) (map (Pair vertex) ns) edges"
  by (cases d; induction ns arbitrary: edges) (simp_all add: edge_step_def)

lemma get_edges_loop_fold:
  "get_edges_loop d al edges = fold (edge_step d) (entries al) edges"
  by (induction al arbitrary: edges) (auto simp: entries_def get_edges_for_fold)

lemma entries_member:
  "(a, b) \<in> set (entries al) \<longleftrightarrow> (\<exists>ns. (a, ns) \<in> set al \<and> b \<in> set ns)"
  by (auto simp: entries_def)

lemma distinct_entries:
  "distinct (map fst al) \<Longrightarrow> \<forall>(v, ns) \<in> set al. distinct ns \<Longrightarrow> distinct (entries al)"
proof (induction al)
  case Nil
  then show ?case by (simp add: entries_def)
next
  case (Cons e al)
  obtain k ns where e: "e = (k, ns)" by (cases e)
  have "entries (e # al) = map (Pair k) ns @ entries al"
    by (simp add: entries_def e)
  moreover have "distinct (map (Pair k) ns)"
    using Cons.prems e by (simp add: distinct_map inj_on_def)
  moreover have "set (map (Pair k) ns) \<inter> set (entries al) = {}"
    using Cons.prems e by (force simp: entries_member)
  ultimately show ?case using Cons by simp
qed

text \<open>
  What holds of the list of edges after the pairs \<open>seen\<close>: it lists seen pairs only,
  none twice, each seen pair in one direction at least, and no pair of distinct
  vertices in both directions.
\<close>

definition edges_inv :: "('v \<times> 'v) list \<Rightarrow> ('v \<times> 'v) list \<Rightarrow> bool" where
  "edges_inv edges seen \<longleftrightarrow>
     set edges \<subseteq> set seen \<and> distinct edges \<and>
     (\<forall>(a, b) \<in> set seen. (a, b) \<in> set edges \<or> (b, a) \<in> set edges) \<and>
     (\<forall>a b. a \<noteq> b \<longrightarrow> \<not> ((a, b) \<in> set edges \<and> (b, a) \<in> set edges))"

lemma edges_inv_fold:
  "distinct (seen @ ps) \<Longrightarrow> edges_inv edges seen \<Longrightarrow>
     edges_inv (fold (edge_step False) ps edges) (seen @ ps)"
proof (induction ps arbitrary: edges seen)
  case Nil
  then show ?case by simp
next
  case (Cons p ps)
  obtain a b where p: "p = (a, b)" by (cases p)
  have "edges_inv (edge_step False p edges) (seen @ [p])"
    using Cons.prems unfolding edges_inv_def edge_step_def p
    by (auto split: if_splits)
  moreover have "distinct ((seen @ [p]) @ ps)" using Cons.prems by simp
  ultimately have "edges_inv (fold (edge_step False) ps (edge_step False p edges)) ((seen @ [p]) @ ps)"
    by (intro Cons.IH)
  then show ?case by simp
qed

lemma has_edge_entries:
  "distinct (map fst (adjacency_list g)) \<Longrightarrow>
     has_edge g a b \<longleftrightarrow> (a, b) \<in> set (entries (adjacency_list g))"
  by (auto simp: has_edge_def entries_member split: option.splits dest: eq_key_imp_eq_value)

lemma get_edges_inv:
  assumes "\<not> directed g" "distinct (map fst (adjacency_list g))" "no_duplicates g"
  shows "edges_inv (get_edges g) (entries (adjacency_list g))"
proof -
  have "\<forall>(v, ns) \<in> set (adjacency_list g). distinct ns"
  proof clarify
    fix v ns assume "(v, ns) \<in> set (adjacency_list g)"
    with assms(2) have "map_of (adjacency_list g) v = Some ns" by simp
    then have "get_neighbors g v = ns" by (simp add: get_neighbors_def)
    with assms(3) show "distinct ns" by (auto simp: no_duplicates_def)
  qed
  with assms(2) have "distinct ([] @ entries (adjacency_list g))"
    by (simp add: distinct_entries)
  moreover have "edges_inv [] []" by (simp add: edges_inv_def)
  ultimately have "edges_inv (fold (edge_step False) (entries (adjacency_list g)) [])
      ([] @ entries (adjacency_list g))"
    by (rule edges_inv_fold)
  with assms(1) show ?thesis by (simp add: get_edges_def get_edges_loop_fold)
qed

text \<open>
  Claim C7. In an undirected graph without duplicate neighbour entries (whose
  dictionary has each key once, as every Python dictionary does), \<^verbatim>\<open>get_edges\<close>
  reports each edge between two different vertices once, in one of the two directions,
  and a self-loop once; and it reports only edges of the graph.
\<close>

theorem get_edges_undirected:
  assumes "\<not> directed g" and "distinct (map fst (adjacency_list g))" and "no_duplicates g"
  shows "(has_edge g u v \<longrightarrow>
            (if u = v then count_list (get_edges g) (u, u) = 1
             else count_list (get_edges g) (u, v) + count_list (get_edges g) (v, u) = 1)) \<and>
         ((a, b) \<in> set (get_edges g) \<longrightarrow> has_edge g a b)"
proof -
  from get_edges_inv[OF assms] have
    i1: "set (get_edges g) \<subseteq> set (entries (adjacency_list g))" and
    i2: "distinct (get_edges g)" and
    i3: "\<And>a b. (a, b) \<in> set (entries (adjacency_list g)) \<Longrightarrow>
            (a, b) \<in> set (get_edges g) \<or> (b, a) \<in> set (get_edges g)" and
    i4: "\<And>a b. a \<noteq> b \<Longrightarrow> \<not> ((a, b) \<in> set (get_edges g) \<and> (b, a) \<in> set (get_edges g))"
    unfolding edges_inv_def by auto
  have "(a, b) \<in> set (get_edges g) \<longrightarrow> has_edge g a b"
    using i1 by (auto simp: has_edge_entries[OF assms(2)])
  moreover have "has_edge g u v \<longrightarrow>
            (if u = v then count_list (get_edges g) (u, u) = 1
             else count_list (get_edges g) (u, v) + count_list (get_edges g) (v, u) = 1)"
    using i3[of u v] i4[of u v] by (auto simp: has_edge_entries[OF assms(2)] count_list_distinct[OF i2])
  ultimately show ?thesis by blast
qed

text \<open>
  An undirected graph with a self-loop: the result of \<^verbatim>\<open>add_edge('A','A')\<close> and
  \<^verbatim>\<open>add_edge('A','B')\<close>.
\<close>

definition loop_graph :: "string py_value graph" where
  "loop_graph = \<lparr>adjacency_list = [(Val ''A'', [Val ''A'', Val ''B'']), (Val ''B'', [Val ''A''])], directed = False\<rparr>"

lemma loop_graph_value:
  "then_add_edge (add_edge (Graph_init False) (Val ''A'') (Val ''A'')) (Val ''A'') (Val ''B'') = Inr loop_graph"
  by (simp add: loop_graph_def then_add_edge_def add_edge_def add_vertex_def has_vertex_def
        Graph_init_def)

lemma scenario1_edges:
  "get_edges scenario1_graph =
     [(Val ''A'', Val ''B''), (Val ''A'', Val ''C''), (Val ''B'', Val ''D''), (Val ''B'', Val ''E''), (Val ''C'', Val ''F''), (Val ''E'', Val ''F'')]"
  by (simp add: get_edges_def scenario1_graph_def)

lemma loop_graph_edges: "get_edges loop_graph = [(Val ''A'', Val ''A''), (Val ''A'', Val ''B'')]"
  by (simp add: get_edges_def loop_graph_def)

theorem get_edges_undirected_witness:
  "\<not> directed scenario1_graph \<and> distinct (map fst (adjacency_list scenario1_graph)) \<and>
   no_duplicates scenario1_graph \<and> has_edge scenario1_graph (Val ''B'') (Val ''A'') \<and>
   count_list (get_edges scenario1_graph) (Val ''B'', Val ''A'')
     + count_list (get_edges scenario1_graph) (Val ''A'', Val ''B'') = 1 \<and>
   \<not> directed loop_graph \<and> distinct (map fst (adjacency_list loop_graph)) \<and>
   no_duplicates loop_graph \<and> has_edge loop_graph (Val ''A'') (Val ''A'') \<and>
   count_list (get_edges loop_graph) (Val ''A'', Val ''A'') = 1 \<and>
   get_edges scenario1_graph =
     [(Val ''A'', Val ''B''), (Val ''A'', Val ''C''), (Val ''B'', Val ''D''), (Val ''B'', Val ''E''), (Val ''C'', Val ''F''), (Val ''E'', Val ''F'')] \<and>
   get_edges loop_graph = [(Val ''A'', Val ''A''), (Val ''A'', Val ''B'')]"
proof -
  have a: "\<not> directed scenario1_graph" "distinct (map fst (adjacency_list scenario1_graph))"
    by (simp_all add: scenario1_graph_def)
  have b: "no_duplicates scenario1_graph"
    using scenario1_reachable by (rule api_reachable_no_duplicates)
  have c: "has_edge scenario1_graph (Val ''B'') (Val ''A'')"
    by (simp add: has_edge_neighbors scenario1_neighbors)
  have a': "\<not> directed loop_graph" "distinct (map fst (adjacency_list loop_graph))"
    by (simp_all add: loop_graph_def)
  have b': "no_duplicates loop_graph"
    by (simp add: no_duplicates_def get_neighbors_def loop_graph_def)
  have c': "has_edge loop_graph (Val ''A'') (Val ''A'')"
    by (simp add: has_edge_def loop_graph_def)
  from get_edges_undirected[OF a b, of "Val ''B''" "Val ''A''"] get_edges_undirected[OF a' b', of "Val ''A''" "Val ''A''"]
    a b c a' b' c'
  show ?thesis by (simp add: scenario1_edges loop_graph_edges)
qed

section \<open>Paths found by \<^verbatim>\<open>bfs_path\<close>\<close>

text \<open>
  A walk is a non-empty list of vertices in which \<^verbatim>\<open>has_edge\<close> holds of every two
  neighbouring elements; it connects its first element to its last. The number of its
  edges is its length minus one.
\<close>

fun walk :: "'v graph \<Rightarrow> 'v list \<Rightarrow> bool" where
  "walk g [] = False"
| "walk g [v] = True"
| "walk g (u # v # rest) = (has_edge g u v \<and> walk g (v # rest))"

definition connects :: "'v graph \<Rightarrow> 'v \<Rightarrow> 'v \<Rightarrow> 'v list \<Rightarrow> bool" where
  "connects g s t p = (walk g p \<and> hd p = s \<and> last p = t)"

definition min_edges :: "'v graph \<Rightarrow> 'v \<Rightarrow> 'v \<Rightarrow> nat" where
  "min_edges g s t = (LEAST n. \<exists>p. connects g s t p \<and> length p - 1 = n)"

lemma walk_nonempty: "walk g p \<Longrightarrow> p \<noteq> []"
  by auto

lemma walk_snoc: "walk g p \<Longrightarrow> has_edge g (last p) v \<Longrightarrow> walk g (p @ [v])"
  by (induction g p rule: walk.induct) auto

lemma walk_nth:
  "walk g p \<longleftrightarrow> p \<noteq> [] \<and> (\<forall>i. Suc i < length p \<longrightarrow> has_edge g (p ! i) (p ! Suc i))"
proof (induction g p rule: walk.induct)
  case (1 g)
  then show ?case by simp
next
  case (2 g v)
  then show ?case by simp
next
  case (3 g u v rest)
  have "(\<forall>i. Suc i < length (u # v # rest) \<longrightarrow> has_edge g ((u # v # rest) ! i) ((u # v # rest) ! Suc i))
      \<longleftrightarrow> has_edge g u v \<and> (\<forall>i. Suc i < length (v # rest) \<longrightarrow> has_edge g ((v # rest) ! i) ((v # rest) ! Suc i))"
    (is "?L \<longleftrightarrow> ?R")
  proof
    assume l: ?L
    from l[rule_format, of 0] have "has_edge g u v" by simp
    moreover have "\<forall>i. Suc i < length (v # rest) \<longrightarrow> has_edge g ((v # rest) ! i) ((v # rest) ! Suc i)"
    proof (intro allI impI)
      fix i assume "Suc i < length (v # rest)"
      with l[rule_format, of "Suc i"] show "has_edge g ((v # rest) ! i) ((v # rest) ! Suc i)" by simp
    qed
    ultimately show ?R by blast
  next
    assume r: ?R
    show ?L
    proof (intro allI impI)
      fix i assume i: "Suc i < length (u # v # rest)"
      show "has_edge g ((u # v # rest) ! i) ((u # v # rest) ! Suc i)"
      proof (cases i)
        case 0
        with r show ?thesis by simp
      next
        case (Suc j)
        with i r show ?thesis by simp
      qed
    qed
  qed
  with 3 show ?case by simp
qed

text \<open>
  The parent map is a tree rooted at the start vertex, as long as \<^verbatim>\<open>None\<close> is not
  visited: the start has the entry \<^verbatim>\<open>None\<close>, every other visited vertex has a visited
  parent it is a neighbour of, one level above it. The level \<open>lvl\<close> is not part of the
  program; it is the depth in the tree.
\<close>

definition tree_inv ::
  "'v py_value graph \<Rightarrow> 'v py_value \<Rightarrow> ('v py_value \<Rightarrow> nat) \<Rightarrow> 'v py_value set \<Rightarrow>
   ('v py_value \<rightharpoonup> 'v py_value) \<Rightarrow> bool" where
  "tree_inv g s lvl visited parent \<longleftrightarrow>
     s \<in> visited \<and> PyNone \<notin> visited \<and> parent s = Some PyNone \<and> lvl s = 0 \<and>
     (\<forall>v \<in> visited. v \<noteq> s \<longrightarrow>
        (\<exists>p \<in> visited. parent v = Some p \<and> has_edge g p v \<and> lvl v = Suc (lvl p)))"

lemma build_path_tree:
  assumes "tree_inv g s lvl visited parent"
  shows "v \<in> visited \<Longrightarrow>
     \<exists>c. build_path parent v acc = Some (Inr (acc @ c)) \<and>
         connects g s v (rev c) \<and> length c = Suc (lvl v)"
proof (induction "lvl v" arbitrary: v acc)
  case 0
  with assms have "v = s" by (auto simp: tree_inv_def)
  with assms have "build_path parent v acc = Some (Inr (acc @ [v]))"
    by (auto simp: build_path.simps tree_inv_def)
  with 0 \<open>v = s\<close> show ?case by (simp add: connects_def)
next
  case (Suc n)
  with assms have "v \<noteq> s" by (auto simp: tree_inv_def)
  from assms Suc.prems have vn: "v \<noteq> PyNone" by (auto simp: tree_inv_def)
  from \<open>v \<noteq> s\<close> assms Suc.prems obtain p where p: "p \<in> visited" "parent v = Some p"
      "has_edge g p v" "lvl v = Suc (lvl p)"
    unfolding tree_inv_def by blast
  with Suc.hyps have "n = lvl p" by simp
  from Suc.hyps(1)[OF this p(1), of "acc @ [v]"] obtain c where
    c: "build_path parent p (acc @ [v]) = Some (Inr ((acc @ [v]) @ c))"
      "connects g s p (rev c)" "length c = Suc (lvl p)" by blast
  have "build_path parent v acc = Some (Inr (acc @ (v # c)))"
    using p(2) c(1) vn by (subst build_path.simps) simp
  moreover have "connects g s v (rev (v # c))"
  proof -
    from c(2) have w: "walk g (rev c)" "hd (rev c) = s" "last (rev c) = p"
      by (simp_all add: connects_def)
    from w(1) have ne: "rev c \<noteq> []" by (rule walk_nonempty)
    from w(1,3) p(3) have "walk g (rev c @ [v])" by (intro walk_snoc) simp_all
    moreover from ne w(2) have "hd (rev c @ [v]) = s" by (simp add: hd_append)
    ultimately show ?thesis by (simp add: connects_def)
  qed
  moreover have "length (v # c) = Suc (lvl v)" using c(3) p(4) by simp
  ultimately show ?case by blast
qed

text \<open>
  The invariant of \<^verbatim>\<open>bfs_path\<close> while the vertex \<open>u\<close> is being expanded and the
  neighbours \<open>ns\<close> of \<open>u\<close> are still to be looked at: the queue is ordered by level
  and spans at most the levels of \<open>u\<close> and the next one; an edge from a visited vertex
  to an unvisited one starts in the queue or is one of the edges to \<open>ns\<close>; an edge
  between visited vertices goes up one level at most; the target is not visited. The
  visited vertices are reachable from the start, and \<^verbatim>\<open>None\<close> is not.
\<close>

definition bfs_inv ::
  "'v py_value graph \<Rightarrow> 'v py_value \<Rightarrow> 'v py_value \<Rightarrow> ('v py_value \<Rightarrow> nat) \<Rightarrow> 'v py_value \<Rightarrow>
   'v py_value list \<Rightarrow> 'v py_value list \<Rightarrow> 'v py_value set \<Rightarrow>
   ('v py_value \<rightharpoonup> 'v py_value) \<Rightarrow> bool" where
  "bfs_inv g s t lvl u ns queue visited parent \<longleftrightarrow>
     PyNone \<notin> reachable_from g s \<and> visited \<subseteq> reachable_from g s \<and>
     tree_inv g s lvl visited parent \<and> t \<notin> visited \<and> u \<in> visited \<and> set queue \<subseteq> visited \<and>
     sorted (map lvl queue) \<and>
     (\<forall>q \<in> set queue. lvl u \<le> lvl q \<and> lvl q \<le> Suc (lvl u)) \<and>
     (\<forall>v \<in> visited. lvl v \<le> Suc (lvl u)) \<and>
     (\<forall>y \<in> set ns. has_edge g u y) \<and>
     (\<forall>x \<in> visited. \<forall>y. has_edge g x y \<longrightarrow>
        y \<in> visited \<or> x \<in> set queue \<or> (x = u \<and> y \<in> set ns)) \<and>
     (\<forall>x \<in> visited. \<forall>y \<in> visited. has_edge g x y \<longrightarrow> lvl y \<le> Suc (lvl x)) \<and>
     (no_dangling g \<longrightarrow> (\<forall>v \<in> visited. has_vertex g v))"

lemma bfs_inv_init:
  "has_vertex g s \<Longrightarrow> s \<noteq> t \<Longrightarrow> PyNone \<notin> reachable_from g s \<Longrightarrow>
     bfs_inv g s t (\<lambda>v. 0) s [] [s] {s} [s \<mapsto> PyNone]"
  using reachable_from_refl[of s g] by (auto simp: bfs_inv_def tree_inv_def)

lemma bfs_inv_next:
  assumes "bfs_inv g s t lvl u [] (u' # rest) visited parent"
    and "map_of (adjacency_list g) u' = Some ns"
  shows "bfs_inv g s t lvl u' ns rest visited parent"
proof -
  from assms(2) have nb: "\<And>y. y \<in> set ns \<longleftrightarrow> has_edge g u' y"
    by (simp add: has_edge_def)
  from assms(1) have le: "lvl u \<le> lvl u'"
    by (simp add: bfs_inv_def)
  from assms(1) have "\<forall>v \<in> visited. lvl v \<le> Suc (lvl u)"
    by (simp add: bfs_inv_def)
  with le have b: "\<forall>v \<in> visited. lvl v \<le> Suc (lvl u')"
    by (meson le_trans Suc_le_mono)
  from assms(1) have "set rest \<subseteq> visited" by (simp add: bfs_inv_def)
  with b have b': "\<forall>q \<in> set rest. lvl q \<le> Suc (lvl u')" by blast
  from assms(1) b b' show ?thesis
    unfolding bfs_inv_def by (auto simp: nb)
qed

lemma bfs_inv_skip:
  "bfs_inv g s t lvl u (n # ns) queue visited parent \<Longrightarrow> n \<in> visited \<Longrightarrow>
     bfs_inv g s t lvl u ns queue visited parent"
  unfolding bfs_inv_def by auto

lemma tree_inv_extend:
  assumes "tree_inv g s lvl visited parent" and "u \<in> visited" and "n \<notin> visited"
    and "has_edge g u n" and "n \<noteq> PyNone"
  shows "tree_inv g s (lvl(n := Suc (lvl u))) (insert n visited) (parent(n \<mapsto> u))"
proof -
  from assms have ne: "s \<noteq> n" "u \<noteq> n" by (auto simp: tree_inv_def)
  have "\<exists>p \<in> insert n visited. (parent(n \<mapsto> u)) v = Some p \<and> has_edge g p v \<and>
          (lvl(n := Suc (lvl u))) v = Suc ((lvl(n := Suc (lvl u))) p)"
    if v: "v \<in> insert n visited" "v \<noteq> s" for v
  proof (cases "v = n")
    case True
    with assms ne show ?thesis by (intro bexI[of _ u]) simp_all
  next
    case False
    with v assms(1) obtain p where "p \<in> visited" "parent v = Some p" "has_edge g p v"
        "lvl v = Suc (lvl p)"
      unfolding tree_inv_def by blast
    with False assms(3) show ?thesis by (intro bexI[of _ p]) auto
  qed
  with assms(1,5) ne show ?thesis
    unfolding tree_inv_def by simp
qed

lemma bfs_inv_discover:
  assumes inv: "bfs_inv g s t lvl u (n # ns) queue visited parent"
    and n: "n \<notin> visited" "n \<noteq> t"
  shows "bfs_inv g s t (lvl(n := Suc (lvl u))) u ns (queue @ [n]) (insert n visited)
           (parent(n \<mapsto> u))"
proof -
  let ?lvl = "lvl(n := Suc (lvl u))"
  from inv have u: "u \<in> visited" and e: "has_edge g u n" and q: "set queue \<subseteq> visited"
    by (simp_all add: bfs_inv_def)
  from u n have un: "u \<noteq> n" by auto
  have old: "\<And>v. v \<in> visited \<Longrightarrow> ?lvl v = lvl v" using n by auto
  have oldq: "map ?lvl queue = map lvl queue" using q old by (auto simp: subset_iff)
  from inv have rs: "PyNone \<notin> reachable_from g s" "visited \<subseteq> reachable_from g s"
    by (simp_all add: bfs_inv_def)
  from rs(2) u e have nr: "n \<in> reachable_from g s"
    by (auto intro: reachable_from_step)
  with rs(1) have nn: "n \<noteq> PyNone" by auto
  have t0: "insert n visited \<subseteq> reachable_from g s" using rs(2) nr by simp
  have t1: "tree_inv g s ?lvl (insert n visited) (parent(n \<mapsto> u))"
    using inv u n(1) e nn by (intro tree_inv_extend) (simp_all add: bfs_inv_def)
  have t2: "t \<notin> insert n visited" using inv n by (simp add: bfs_inv_def)
  have t3: "set (queue @ [n]) \<subseteq> insert n visited" using q by auto
  have bq: "\<forall>x \<in> set queue. lvl u \<le> lvl x \<and> lvl x \<le> Suc (lvl u)"
    using inv by (simp add: bfs_inv_def)
  have t4: "sorted (map ?lvl (queue @ [n]))"
    using inv bq by (simp add: oldq sorted_append bfs_inv_def)
  have t5: "\<forall>x \<in> set (queue @ [n]). ?lvl u \<le> ?lvl x \<and> ?lvl x \<le> Suc (?lvl u)"
    using bq q un old by (auto simp: subset_iff)
  have t6: "\<forall>v \<in> insert n visited. ?lvl v \<le> Suc (?lvl u)"
    using inv un by (auto simp: bfs_inv_def)
  have t7: "\<forall>y \<in> set ns. has_edge g u y" using inv by (simp add: bfs_inv_def)
  have fr: "\<forall>x \<in> visited. \<forall>y. has_edge g x y \<longrightarrow>
        y \<in> visited \<or> x \<in> set queue \<or> (x = u \<and> y \<in> set (n # ns))"
    using inv by (simp add: bfs_inv_def)
  have t8: "\<forall>x \<in> insert n visited. \<forall>y. has_edge g x y \<longrightarrow>
        y \<in> insert n visited \<or> x \<in> set (queue @ [n]) \<or> (x = u \<and> y \<in> set ns)"
    using fr by auto
  have lv: "\<forall>x \<in> visited. \<forall>y \<in> visited. has_edge g x y \<longrightarrow> lvl y \<le> Suc (lvl x)"
    using inv by (simp add: bfs_inv_def)
  have bv: "\<forall>v \<in> visited. lvl v \<le> Suc (lvl u)" using inv by (simp add: bfs_inv_def)
  have t9: "\<forall>x \<in> insert n visited. \<forall>y \<in> insert n visited. has_edge g x y \<longrightarrow> ?lvl y \<le> Suc (?lvl x)"
  proof (intro ballI impI)
    fix x y assume x: "x \<in> insert n visited" and y: "y \<in> insert n visited" and xy: "has_edge g x y"
    show "?lvl y \<le> Suc (?lvl x)"
    proof (cases "y = n")
      case yn: True
      show ?thesis
      proof (cases "x = n")
        case True
        with yn show ?thesis by simp
      next
        case False
        with x have xv: "x \<in> visited" by simp
        with fr xy yn n(1) have "x \<in> set queue \<or> x = u" by blast
        with bq have "lvl u \<le> lvl x" by auto
        with yn False show ?thesis by simp
      qed
    next
      case yo: False
      with y have yv: "y \<in> visited" by simp
      show ?thesis
      proof (cases "x = n")
        case True
        with bv yv yo show ?thesis by (simp add: le_SucI)
      next
        case False
        with x have "x \<in> visited" by simp
        with lv yv xy False yo show ?thesis by simp
      qed
    qed
  qed
  have t10: "no_dangling g \<longrightarrow> (\<forall>v \<in> insert n visited. has_vertex g v)"
    using inv e by (auto simp: bfs_inv_def no_dangling_def)
  from rs(1) t0 t1 t2 u t3 t4 t5 t6 t7 t8 t9 t10 show ?thesis
    unfolding bfs_inv_def by blast
qed

text \<open>
  A walk that starts at a visited vertex and ends outside the visited set has to pass
  the frontier, so it is long.
\<close>

lemma walk_leaves_visited:
  assumes inv: "bfs_inv g s t lvl u ns queue visited parent"
  shows "walk g (x # rest) \<Longrightarrow> x \<in> visited \<Longrightarrow> last (x # rest) \<notin> visited \<Longrightarrow>
           Suc (lvl u) \<le> lvl x + length rest"
proof (induction rest arbitrary: x)
  case Nil
  then show ?case by simp
next
  case (Cons y r)
  from Cons.prems have xy: "has_edge g x y" and w: "walk g (y # r)" by simp_all
  show ?case
  proof (cases "y \<in> visited")
    case True
    with inv Cons.prems(2) xy have "lvl y \<le> Suc (lvl x)" by (simp add: bfs_inv_def)
    moreover from Cons.IH[OF w True] Cons.prems(3) have "Suc (lvl u) \<le> lvl y + length r" by simp
    ultimately show ?thesis by simp
  next
    case False
    with inv Cons.prems(2) xy have "x \<in> set queue \<or> x = u"
      unfolding bfs_inv_def by blast
    with inv have "lvl u \<le> lvl x" by (auto simp: bfs_inv_def)
    then show ?thesis by simp
  qed
qed

lemma bfs_inv_found:
  assumes inv: "bfs_inv g s t lvl u ns queue visited parent" and c: "connects g s t q"
  shows "Suc (Suc (lvl u)) \<le> length q"
proof -
  from c have w: "walk g q" "hd q = s" "last q = t" by (simp_all add: connects_def)
  from w(1) have "q \<noteq> []" by (rule walk_nonempty)
  with w(2) obtain rest where q: "q = s # rest" by (cases q) auto
  from inv have "s \<in> visited" "lvl s = 0" "t \<notin> visited"
    by (simp_all add: bfs_inv_def tree_inv_def)
  with walk_leaves_visited[OF inv, of s rest] w q show ?thesis by simp
qed

lemma bfs_inv_exhausted:
  assumes "bfs_inv g s t lvl u [] [] visited parent"
  shows "t \<notin> reachable_from g s"
proof -
  from assms have sv: "s \<in> visited" and tv: "t \<notin> visited"
    and cl: "\<forall>x \<in> visited. \<forall>y. has_edge g x y \<longrightarrow> y \<in> visited"
    by (simp_all add: bfs_inv_def tree_inv_def)
  have "reachable_from g s \<subseteq> visited"
    using sv cl by (intro reachable_from_closed) blast+
  with tv show ?thesis by blast
qed

definition shortest :: "'v graph \<Rightarrow> 'v \<Rightarrow> 'v \<Rightarrow> 'v list \<Rightarrow> bool" where
  "shortest g s t p \<longleftrightarrow> connects g s t p \<and> (\<forall>q. connects g s t q \<longrightarrow> length p \<le> length q)"

lemma bfs_path_for_inv:
  assumes "bfs_inv g s t lvl u ns queue visited parent"
  shows "case bfs_path_for t u ns (visited, parent, queue) of
           Returned r \<Rightarrow> (\<exists>p. r = Some (Inr (Some p)) \<and> shortest g s t p)
         | Completed (visited', parent', queue') \<Rightarrow>
             (\<exists>lvl'. bfs_inv g s t lvl' u [] queue' visited' parent')"
  using assms
proof (induction ns arbitrary: lvl queue visited parent)
  case Nil
  then have "\<exists>lvl'. bfs_inv g s t lvl' u [] queue visited parent" by blast
  then show ?case by simp
next
  case (Cons n ns)
  show ?case
  proof (cases "n \<in> visited")
    case True
    with Cons.prems have "bfs_inv g s t lvl u ns queue visited parent"
      by (rule bfs_inv_skip)
    from Cons.IH[OF this] have "case bfs_path_for t u ns (visited, parent, queue) of
           Returned r \<Rightarrow> (\<exists>p. r = Some (Inr (Some p)) \<and> shortest g s t p)
         | Completed (visited', parent', queue') \<Rightarrow>
             (\<exists>lvl'. bfs_inv g s t lvl' u [] queue' visited' parent')" .
    moreover have "bfs_path_for t u (n # ns) (visited, parent, queue)
        = bfs_path_for t u ns (visited, parent, queue)"
      using True by simp
    ultimately show ?thesis by (simp only:)
  next
    case False
    show ?thesis
    proof (cases "n = t")
      case nt: False
      from bfs_inv_discover[OF Cons.prems False nt]
      have "bfs_inv g s t (lvl(n := Suc (lvl u))) u ns (queue @ [n]) (insert n visited)
              (parent(n \<mapsto> u))" .
      from Cons.IH[OF this]
      have "case bfs_path_for t u ns
                 (insert n visited, parent(n \<mapsto> u), queue @ [n]) of
           Returned r \<Rightarrow> (\<exists>p. r = Some (Inr (Some p)) \<and> shortest g s t p)
         | Completed (visited', parent', queue') \<Rightarrow>
             (\<exists>lvl'. bfs_inv g s t lvl' u [] queue' visited' parent')" .
      moreover have "bfs_path_for t u (n # ns) (visited, parent, queue)
          = bfs_path_for t u ns (insert n visited, parent(n \<mapsto> u), queue @ [n])"
        using False nt by simp
      ultimately show ?thesis by (simp only:)
    next
      case True
      let ?lvl = "lvl(t := Suc (lvl u))"
      from Cons.prems have u: "u \<in> visited" and e: "has_edge g u n"
        and tr: "tree_inv g s lvl visited parent"
        by (simp_all add: bfs_inv_def)
      from u False have ut: "u \<noteq> t" using True by auto
      from Cons.prems have rs: "PyNone \<notin> reachable_from g s" "visited \<subseteq> reachable_from g s"
        by (simp_all add: bfs_inv_def)
      from rs(2) u e have "n \<in> reachable_from g s"
        by (auto intro: reachable_from_step)
      with rs(1) True have tn: "t \<noteq> PyNone" by auto
      have "tree_inv g s ?lvl (insert t visited) (parent(t \<mapsto> u))"
        using tr u False e True tn by (intro tree_inv_extend) simp_all
      from build_path_tree[OF this, of t "[]"] obtain c where
        c: "build_path (parent(t \<mapsto> u)) t [] = Some (Inr c)"
          "connects g s t (rev c)" "length c = Suc (?lvl t)" by auto
      from c(3) have len: "length (rev c) = Suc (Suc (lvl u))" by simp
      have "shortest g s t (rev c)"
        unfolding shortest_def
        using c(2) len bfs_inv_found[OF Cons.prems] by auto
      moreover have "bfs_path_for t u (n # ns) (visited, parent, queue)
          = Returned (Some (Inr (Some (rev c))))"
        using c(1) False True by simp
      ultimately show ?thesis by simp
    qed
  qed
qed


lemma bfs_path_loop_inv:
  "bfs_inv g s t lvl u [] queue visited parent \<Longrightarrow>
     (\<exists>p. bfs_path_loop g t queue visited parent = Some (Inr (Some p)) \<and> shortest g s t p) \<or>
     (bfs_path_loop g t queue visited parent = Some (Inr None) \<and> t \<notin> reachable_from g s) \<or>
     (bfs_path_loop g t queue visited parent = Some (Inl KeyError) \<and> \<not> no_dangling g)"
proof (induction g t queue visited parent arbitrary: lvl u rule: bfs_path_loop.induct)
  case (1 g target visited parent)
  from bfs_inv_exhausted[OF "1.prems"] show ?case by simp
next
  case (2 g target vertex queue visited parent)
  show ?case
  proof (cases "map_of (adjacency_list g) vertex")
    case None
    then have "\<not> has_vertex g vertex" by (simp add: has_vertex_map_of)
    moreover from "2.prems" have "vertex \<in> visited" "no_dangling g \<longrightarrow> has_vertex g vertex"
      by (simp_all add: bfs_inv_def)
    ultimately have "\<not> no_dangling g" by blast
    with None show ?thesis by simp
  next
    case (Some ns)
    from bfs_inv_next[OF "2.prems" Some]
    have inv: "bfs_inv g s target lvl vertex ns queue visited parent" .
    show ?thesis
    proof (cases "bfs_path_for target vertex ns (visited, parent, queue)")
      case (Returned r)
      with bfs_path_for_inv[OF inv] Some show ?thesis by simp
    next
      case (Completed st)
      obtain visited' parent' queue' where st: "st = (visited', parent', queue')"
        by (cases st)
      with bfs_path_for_inv[OF inv] Completed obtain lvl'
        where "bfs_inv g s target lvl' vertex [] queue' visited' parent'" by auto
      from "2.IH"[OF Some Completed _ _ this] st
      have "(\<exists>p. bfs_path_loop g target queue' visited' parent' = Some (Inr (Some p)) \<and>
               shortest g s target p) \<or>
            (bfs_path_loop g target queue' visited' parent' = Some (Inr None) \<and>
               target \<notin> reachable_from g s) \<or>
            (bfs_path_loop g target queue' visited' parent' = Some (Inl KeyError) \<and>
               \<not> no_dangling g)"
        by simp
      with Some Completed st show ?thesis by simp
    qed
  qed
qed

text \<open>
  The three outcomes of \<^verbatim>\<open>bfs_path\<close> on two vertices of the graph. It always returns:
  the walk along \<^verbatim>\<open>parent\<close> ends.
\<close>

lemma bfs_path_outcome:
  assumes "has_vertex g s" and "has_vertex g t" and "PyNone \<notin> reachable_from g s"
  shows "(\<exists>p. bfs_path g s t = Some (Inr (Some p)) \<and> shortest g s t p) \<or>
         (bfs_path g s t = Some (Inr None) \<and> t \<notin> reachable_from g s) \<or>
         (bfs_path g s t = Some (Inl KeyError) \<and> \<not> no_dangling g)"
proof (cases "s = t")
  case True
  have "shortest g s s [s]"
    by (auto simp: shortest_def connects_def dest!: walk_nonempty simp: Suc_le_eq)
  with assms True show ?thesis by (simp add: bfs_path_def)
next
  case False
  from bfs_inv_init[OF assms(1) False assms(3)]
  have "bfs_inv g s t (\<lambda>v. 0) s [] [s] {s} [s \<mapsto> PyNone]" .
  from bfs_path_loop_inv[OF this] assms False show ?thesis
    by (simp add: bfs_path_def)
qed


text \<open>
  In a graph whose neighbours are all vertices only vertices are reachable; so where
  \<^verbatim>\<open>None\<close> is not a vertex it is not reachable.
\<close>

lemma none_unreachable:
  assumes "no_dangling g" and "has_vertex g s" and "\<not> has_vertex g PyNone"
  shows "PyNone \<notin> reachable_from g s"
proof -
  have "reachable_from g s \<subseteq> {v. has_vertex g v}"
    using assms(1,2) by (intro reachable_from_closed) (auto simp: no_dangling_def)
  with assms(3) show ?thesis by auto
qed

lemma scenario1_none_unreachable: "PyNone \<notin> reachable_from scenario1_graph (Val ''A'')"
  by (rule none_unreachable)
     (simp_all add: api_reachable_no_dangling scenario1_reachable scenario1_vertices)

text \<open>
  The undirected graph that \<^verbatim>\<open>add_edge(None, 'A')\<close> builds: \<^verbatim>\<open>None\<close> is a vertex of it.
\<close>

definition none_graph :: "string py_value graph" where
  "none_graph =
     \<lparr>adjacency_list = [(PyNone, [Val ''A'']), (Val ''A'', [PyNone])], directed = False\<rparr>"

lemma none_graph_value: "add_edge (Graph_init False) PyNone (Val ''A'') = Inr none_graph"
  by (simp add: none_graph_def add_edge_def add_vertex_def has_vertex_def Graph_init_def)

lemma none_graph_reachable: "api_reachable none_graph"
  using api_reachable.add_edge[OF api_reachable.init none_graph_value] .

lemma none_graph_path_from_none:
  "bfs_path none_graph PyNone (Val ''A'') = Some (Inr (Some [Val ''A'']))"
  by (simp add: bfs_path_def none_graph_def has_vertex_def build_path.simps)

lemma none_graph_path_to_none:
  "bfs_path none_graph (Val ''A'') PyNone = Some (Inr (Some []))"
  by (simp add: bfs_path_def none_graph_def has_vertex_def build_path.simps)

text \<open>
  Claim C10, as the code has it. Whenever \<^verbatim>\<open>None\<close> is not reachable from the start (in
  particular in a graph without dangling neighbours in which \<^verbatim>\<open>None\<close> is not a vertex)
  and \<^verbatim>\<open>bfs_path(start, target)\<close> returns a list \<open>p\<close>, the list is a path of the graph:
  it is not empty, its first element is the start, its last element is the target, and
  \<^verbatim>\<open>has_edge(p[i], p[i+1])\<close> holds for every \<open>i\<close>.
\<close>

theorem bfs_path_valid:
  "PyNone \<notin> reachable_from g s \<Longrightarrow> bfs_path g s t = Some (Inr (Some p)) \<Longrightarrow>
     p \<noteq> [] \<and> hd p = s \<and> last p = t \<and>
     (\<forall>i. Suc i < length p \<longrightarrow> has_edge g (p ! i) (p ! Suc i))"
proof -
  assume n: "PyNone \<notin> reachable_from g s" and r: "bfs_path g s t = Some (Inr (Some p))"
  then have "has_vertex g s" "has_vertex g t"
    by (auto simp: bfs_path_def split: if_splits)
  from bfs_path_outcome[OF this n] r have "shortest g s t p" by auto
  then show ?thesis
    by (simp add: shortest_def connects_def walk_nth)
qed

lemma scenario1_bfs_path:
  "bfs_path scenario1_graph (Val ''A'') (Val ''F'')
     = Some (Inr (Some [Val ''A'', Val ''C'', Val ''F'']))"
  by (simp add: bfs_path_def scenario1_graph_def has_vertex_def build_path.simps)

theorem bfs_path_valid_witness:
  "PyNone \<notin> reachable_from scenario1_graph (Val ''A'') \<and>
   bfs_path scenario1_graph (Val ''A'') (Val ''F'')
     = Some (Inr (Some [Val ''A'', Val ''C'', Val ''F''])) \<and>
   hd [Val ''A'', Val ''C'', Val ''F''] = Val ''A'' \<and>
   last [Val ''A'', Val ''C'', Val ''F''] = Val ''F'' \<and>
   has_edge scenario1_graph (Val ''A'') (Val ''C'') \<and>
   has_edge scenario1_graph (Val ''C'') (Val ''F'')"
proof -
  let ?p = "[Val ''A'', Val ''C'', Val ''F'']"
  from bfs_path_valid[OF scenario1_none_unreachable scenario1_bfs_path]
  have e: "\<forall>i. Suc i < length ?p \<longrightarrow> has_edge scenario1_graph (?p ! i) (?p ! Suc i)"
    by blast
  from e[rule_format, of 0] have "has_edge scenario1_graph (Val ''A'') (Val ''C'')" by simp
  moreover from e[rule_format, of 1] have "has_edge scenario1_graph (Val ''C'') (Val ''F'')"
    by simp
  ultimately show ?thesis
    using scenario1_none_unreachable by (simp add: scenario1_bfs_path)
qed

text \<open>
  Without the condition the claim fails: on the graph of \<^verbatim>\<open>add_edge(None, 'A')\<close> the call
  \<^verbatim>\<open>bfs_path('A', None)\<close> returns the empty list, and \<^verbatim>\<open>bfs_path(None, 'A')\<close> returns
  \<open>['A']\<close>, which does not begin with the start.
\<close>

theorem bfs_path_valid_counterexample:
  "api_reachable none_graph \<and>
   bfs_path none_graph (Val ''A'') PyNone = Some (Inr (Some [])) \<and>
   bfs_path none_graph PyNone (Val ''A'') = Some (Inr (Some [Val ''A''])) \<and>
   hd [Val ''A''] \<noteq> (PyNone :: string py_value)"
  by (simp add: none_graph_reachable none_graph_path_to_none none_graph_path_from_none)

text \<open>
  Claim C1, as the code has it. On a graph whose neighbours are all vertices (the first
  invariant of the data model; every graph built through the mutation API has it, see
  \<open>api_reachable_no_dangling\<close>), for a start and a target of the graph with the target
  reachable from the start and \<^verbatim>\<open>None\<close> not reachable from it (in particular when \<^verbatim>\<open>None\<close>
  is not a vertex), \<^verbatim>\<open>bfs_path(start, target)\<close> returns a path from the start to the
  target, and the length of the path minus one is the minimum number of edges of any
  path from the start to the target.
\<close>

theorem bfs_path_shortest:
  assumes "no_dangling g" and "has_vertex g s" and "has_vertex g t"
    and "t \<in> reachable_from g s" and "PyNone \<notin> reachable_from g s"
  shows "\<exists>p. bfs_path g s t = Some (Inr (Some p)) \<and> connects g s t p \<and>
             (\<forall>q. connects g s t q \<longrightarrow> length p - 1 \<le> length q - 1) \<and>
             length p - 1 = min_edges g s t"
proof -
  from bfs_path_outcome[OF assms(2,3,5)] assms(1,4) obtain p
    where p: "bfs_path g s t = Some (Inr (Some p))" "shortest g s t p" by blast
  from p(2) have c: "connects g s t p"
    and m: "\<And>q. connects g s t q \<Longrightarrow> length p - 1 \<le> length q - 1"
    by (auto simp: shortest_def intro: diff_le_mono)
  have "min_edges g s t = length p - 1"
    unfolding min_edges_def
  proof (rule Least_equality)
    show "\<exists>q. connects g s t q \<and> length q - 1 = length p - 1" using c by blast
    show "length p - 1 \<le> n" if "\<exists>q. connects g s t q \<and> length q - 1 = n" for n
      using that m by blast
  qed
  with p(1) c m show ?thesis by auto
qed

theorem bfs_path_shortest_witness:
  "no_dangling scenario1_graph \<and> has_vertex scenario1_graph (Val ''A'') \<and>
   has_vertex scenario1_graph (Val ''F'') \<and>
   Val ''F'' \<in> reachable_from scenario1_graph (Val ''A'') \<and>
   PyNone \<notin> reachable_from scenario1_graph (Val ''A'') \<and>
   bfs_path scenario1_graph (Val ''A'') (Val ''F'')
     = Some (Inr (Some [Val ''A'', Val ''C'', Val ''F''])) \<and>
   min_edges scenario1_graph (Val ''A'') (Val ''F'') = 2"
proof -
  have a: "no_dangling scenario1_graph"
    using scenario1_reachable by (rule api_reachable_no_dangling)
  have b: "has_vertex scenario1_graph (Val ''A'')" "has_vertex scenario1_graph (Val ''F'')"
    by (simp_all add: scenario1_vertices)
  have "Val ''C'' \<in> reachable_from scenario1_graph (Val ''A'')"
    by (rule reachable_from_step[OF reachable_from_refl])
       (simp add: has_edge_neighbors scenario1_neighbors)
  then have c: "Val ''F'' \<in> reachable_from scenario1_graph (Val ''A'')"
    by (rule reachable_from_step) (simp add: has_edge_neighbors scenario1_neighbors)
  note d = scenario1_none_unreachable
  from bfs_path_shortest[OF a b c d] obtain p where
    p: "bfs_path scenario1_graph (Val ''A'') (Val ''F'') = Some (Inr (Some p))"
      "length p - 1 = min_edges scenario1_graph (Val ''A'') (Val ''F'')" by blast
  from p(1) have "p = [Val ''A'', Val ''C'', Val ''F'']"
    by (simp add: scenario1_bfs_path)
  with p(2) have "min_edges scenario1_graph (Val ''A'') (Val ''F'') = 2"
    by simp
  with a b c d show ?thesis by (simp add: scenario1_bfs_path)
qed

text \<open>
  Without the condition the claim fails: on the graph of \<^verbatim>\<open>add_edge(None, 'A')\<close> the
  vertex \<open>'A'\<close> is one edge away from \<^verbatim>\<open>None\<close>, and \<^verbatim>\<open>bfs_path(None, 'A')\<close> returns the
  list \<open>['A']\<close>, of length one.
\<close>

lemma none_graph_min_edges: "min_edges none_graph PyNone (Val ''A'') = 1"
  unfolding min_edges_def
proof (rule Least_equality)
  have "connects none_graph PyNone (Val ''A'') [PyNone, Val ''A'']"
    by (simp add: connects_def has_edge_def none_graph_def)
  then show "\<exists>p. connects none_graph PyNone (Val ''A'') p \<and> length p - 1 = 1"
    by (intro exI[of _ "[PyNone, Val ''A'']"]) simp
next
  fix n
  assume "\<exists>p. connects none_graph PyNone (Val ''A'') p \<and> length p - 1 = n"
  then obtain p where p: "connects none_graph PyNone (Val ''A'') p" "length p - 1 = n"
    by blast
  show "1 \<le> n"
  proof (rule ccontr)
    assume "\<not> 1 \<le> n"
    with p(2) have "length p \<le> 1" by simp
    moreover from p(1) have "p \<noteq> []" by (auto simp: connects_def dest: walk_nonempty)
    ultimately obtain x where "p = [x]" by (cases p) auto
    with p(1) show False by (auto simp: connects_def)
  qed
qed

theorem bfs_path_shortest_counterexample:
  "api_reachable none_graph \<and> has_vertex none_graph PyNone \<and>
   has_vertex none_graph (Val ''A'') \<and> Val ''A'' \<in> reachable_from none_graph PyNone \<and>
   bfs_path none_graph PyNone (Val ''A'') = Some (Inr (Some [Val ''A''])) \<and>
   length [Val ''A'' :: string py_value] - 1 = 0 \<and>
   min_edges none_graph PyNone (Val ''A'') = 1"
proof -
  have "Val ''A'' \<in> reachable_from none_graph PyNone"
    by (rule reachable_from_step[OF reachable_from_refl])
       (simp add: has_edge_def none_graph_def)
  moreover have "has_vertex none_graph PyNone" "has_vertex none_graph (Val ''A'')"
    by (simp_all add: has_vertex_def none_graph_def)
  ultimately show ?thesis
    by (simp add: none_graph_reachable none_graph_path_from_none none_graph_min_edges)
qed

end
